theory Spec2Isabelle
  imports Main "HOL-Library.Word"
begin

section \<open>JavaScript values, strings and buffers\<close>

text \<open>
  The relay lives in \<open>ipv6Proxy.js\<close> (the second document of \<open>src/unnamed/part_000\<close>);
  \<open>src/unnamed/part_001\<close> holds a second, shorter version of the same module, without the
  token switch, the strip list and the upstream proxies. Both are modelled: a definition
  without suffix follows \<open>part_000\<close> (or what the two share word for word), a definition
  with the suffix \<open>_v0\<close> follows \<open>part_001\<close> where it differs.

  A JavaScript string is modelled by its code points, all below 256 (\<open>string\<close>): what
  Node's decoding of header bytes yields. On them \<open>toLowerCase\<close> moves \<open>A\<close>..\<open>Z\<close> and
  the accented capitals \<open>0xC0\<close>..\<open>0xDE\<close> (without \<open>0xD7\<close>) and nothing else. A \<open>Buffer\<close> is
  a list of bytes.
\<close>

type_synonym byte = "8 word"

datatype js_error =
    RangeError string
  | TypeError string
  | ReferenceError string

definition upper_letters :: string where
  "upper_letters = ''ABCDEFGHIJKLMNOPQRSTUVWXYZ'' @
     [CHR 0xC0, CHR 0xC1, CHR 0xC2, CHR 0xC3, CHR 0xC4, CHR 0xC5, CHR 0xC6,
      CHR 0xC7, CHR 0xC8, CHR 0xC9, CHR 0xCA, CHR 0xCB, CHR 0xCC, CHR 0xCD,
      CHR 0xCE, CHR 0xCF, CHR 0xD0, CHR 0xD1, CHR 0xD2, CHR 0xD3, CHR 0xD4,
      CHR 0xD5, CHR 0xD6, CHR 0xD8, CHR 0xD9, CHR 0xDA, CHR 0xDB, CHR 0xDC,
      CHR 0xDD, CHR 0xDE]"

definition lower_letters :: string where
  "lower_letters = ''abcdefghijklmnopqrstuvwxyz'' @
     [CHR 0xE0, CHR 0xE1, CHR 0xE2, CHR 0xE3, CHR 0xE4, CHR 0xE5, CHR 0xE6,
      CHR 0xE7, CHR 0xE8, CHR 0xE9, CHR 0xEA, CHR 0xEB, CHR 0xEC, CHR 0xED,
      CHR 0xEE, CHR 0xEF, CHR 0xF0, CHR 0xF1, CHR 0xF2, CHR 0xF3, CHR 0xF4,
      CHR 0xF5, CHR 0xF6, CHR 0xF8, CHR 0xF9, CHR 0xFA, CHR 0xFB, CHR 0xFC,
      CHR 0xFD, CHR 0xFE]"

definition lower_char :: "char \<Rightarrow> char" where
  "lower_char c = (case map_of (zip upper_letters lower_letters) c of None \<Rightarrow> c | Some l \<Rightarrow> l)"

definition toLowerCase :: "string \<Rightarrow> string" where
  "toLowerCase s = map lower_char s"

text \<open>\<open>s.split(c)\<close> for a one-character separator: never empty, \<open>''.split(c)\<close> is \<open>['']\<close>.\<close>

fun split_on :: "char \<Rightarrow> string \<Rightarrow> string list" where
  "split_on c [] = [[]]"
| "split_on c (x # xs) =
     (if x = c then [] # split_on c xs
      else (case split_on c xs of
              [] \<Rightarrow> [[x]]
            | p # ps \<Rightarrow> (x # p) # ps))"

text \<open>\<open>parts.join(sep)\<close>.\<close>

fun join_with :: "string \<Rightarrow> string list \<Rightarrow> string" where
  "join_with sep [] = []"
| "join_with sep [p] = p"
| "join_with sep (p # q # ps) = p @ sep @ join_with sep (q # ps)"

text \<open>\<open>.filter(Boolean)\<close> on an array of strings drops the empty ones.\<close>

definition filter_Boolean :: "string list \<Rightarrow> string list" where
  "filter_Boolean ps = filter (\<lambda>p. p \<noteq> []) ps"

definition hex_chars :: string where
  "hex_chars = ''0123456789abcdef''"

definition hex_digit :: "nat \<Rightarrow> char" where
  "hex_digit d = hex_chars ! (d mod 16)"

text \<open>\<open>n.toString(16)\<close> for a non-negative integer.\<close>

fun toString16 :: "nat \<Rightarrow> string" where
  "toString16 n = (if n < 16 then [hex_digit n] else toString16 (n div 16) @ [hex_digit n])"

declare toString16.simps [simp del]

definition padStart :: "nat \<Rightarrow> char \<Rightarrow> string \<Rightarrow> string" where
  "padStart n c s = replicate (n - length s) c @ s"

text \<open>\<open>buf.readUInt16BE(off)\<close>; Node throws a \<open>RangeError\<close> when the two bytes are not
  both inside the buffer.\<close>

definition readUInt16BE :: "byte list \<Rightarrow> nat \<Rightarrow> js_error + nat" where
  "readUInt16BE buf off =
     (if off + 2 \<le> length buf then Inr (unat (buf ! off) * 256 + unat (buf ! (off + 1)))
      else Inl (RangeError ''ERR_OUT_OF_RANGE''))"

text \<open>\<open>crypto.randomBytes(n)\<close>: the next \<open>n\<close> bytes of the system's entropy, the source of
  which is a parameter.\<close>

definition randomBytes :: "(nat \<Rightarrow> byte) \<Rightarrow> nat \<Rightarrow> byte list" where
  "randomBytes entropy n = map entropy [0..<n]"

section \<open>Configuration\<close>

text \<open>\<open>process.env.X || dflt\<close>: an unset or empty variable gives the default.\<close>

definition env_or :: "(string \<Rightarrow> string option) \<Rightarrow> string \<Rightarrow> string \<Rightarrow> string" where
  "env_or env name dflt =
     (case env name of None \<Rightarrow> dflt | Some v \<Rightarrow> if v = [] then dflt else v)"

text \<open>\<open>/^(1|true|yes)$/i.test(s)\<close>.\<close>

definition flag_set :: "string \<Rightarrow> bool" where
  "flag_set s = (toLowerCase s \<in> set [''1'', ''true'', ''yes''])"

record config =
  SHARED_SECRET :: string
  VERSION :: string
  IPV6_PREFIX :: string
  IPV6_SUBNET :: string
  INTERFACE :: string
  ENABLE_ASSIGN :: bool
  REQUIRE_TOKEN :: bool
  PROXY_LIST :: "string option"

definition load_config :: "(string \<Rightarrow> string option) \<Rightarrow> config" where
  "load_config env =
     \<lparr> SHARED_SECRET = env_or env ''I6_SHARED_SECRET'' ''c'',
       VERSION = ''1.0.0'',
       IPV6_PREFIX = env_or env ''I6_IPV6_PREFIX'' ''2001:41d0:601:1100'',
       IPV6_SUBNET = env_or env ''I6_IPV6_SUBNET'' ''5950'',
       INTERFACE = env_or env ''I6_INTERFACE'' ''ens3'',
       ENABLE_ASSIGN = flag_set (env_or env ''I6_ENABLE_ASSIGN'' ''false''),
       REQUIRE_TOKEN = flag_set (env_or env ''I6_REQUIRE_TOKEN'' ''false''),
       PROXY_LIST = env ''I6_PROXY_LIST'' \<rparr>"

text \<open>The configuration block of \<open>part_001\<close>: other defaults, and neither a token switch
  (the token is always asked for) nor a proxy list.\<close>

definition load_config_v0 :: "(string \<Rightarrow> string option) \<Rightarrow> config" where
  "load_config_v0 env =
     \<lparr> SHARED_SECRET = env_or env ''I6_SHARED_SECRET'' ''rXPACddng7mFAbjPP4feLFS1maXg3vpW'',
       VERSION = ''1.0.0'',
       IPV6_PREFIX = env_or env ''I6_IPV6_PREFIX'' ''2a01:e5c0:2d74'',
       IPV6_SUBNET = env_or env ''I6_IPV6_SUBNET'' ''1000'',
       INTERFACE = env_or env ''I6_INTERFACE'' ''ens3'',
       ENABLE_ASSIGN = flag_set (env_or env ''I6_ENABLE_ASSIGN'' ''false''),
       REQUIRE_TOKEN = True,
       PROXY_LIST = None \<rparr>"

section \<open>The address generator\<close>

text \<open>The \<open>for\<close> loop of \<open>randomIPv6\<close>, over the indices \<open>0..remaining-1\<close>: each step
  reads one 16-bit value and pushes its four-digit rendering.\<close>

fun push_hextets :: "byte list \<Rightarrow> nat list \<Rightarrow> string list \<Rightarrow> js_error + string list" where
  "push_hextets buf [] rand = Inr rand"
| "push_hextets buf (i # is) rand =
     (case readUInt16BE buf (i * 2) of
        Inl e \<Rightarrow> Inl e
      | Inr w \<Rightarrow> push_hextets buf is (rand @ [padStart 4 (CHR ''0'') (toString16 w)]))"

text \<open>\<open>null\<close> is \<open>None\<close>. \<open>remaining\<close> is an integer that can be negative.\<close>

definition randomIPv6 :: "config \<Rightarrow> (nat \<Rightarrow> byte) \<Rightarrow> js_error + string option" where
  "randomIPv6 cfg entropy =
     (let prefParts = filter_Boolean (split_on (CHR '':'') (IPV6_PREFIX cfg));
          subParts = filter_Boolean (split_on (CHR '':'') (IPV6_SUBNET cfg));
          fixedCount = length prefParts + length subParts;
          remaining = 8 - int fixedCount
      in if remaining \<le> 0 \<or> remaining > 8 then Inr None
         else
           (let buf = randomBytes entropy (nat remaining * 2)
            in case push_hextets buf [0..<nat remaining] [] of
                 Inl e \<Rightarrow> Inl e
               | Inr rand \<Rightarrow> Inr (Some (join_with '':'' (prefParts @ subParts @ rand)))))"

text \<open>\<open>randomIPv6\<close> of \<open>part_001\<close>: the configured prefix and subnet as they are, then four
  random hextets; it counts nothing and has no \<open>null\<close> result.\<close>

definition randomIPv6_v0 :: "config \<Rightarrow> (nat \<Rightarrow> byte) \<Rightarrow> js_error + string" where
  "randomIPv6_v0 cfg entropy =
     (let buf = randomBytes entropy 8
      in case push_hextets buf [0, 1, 2, 3] [] of
           Inl e \<Rightarrow> Inl e
         | Inr rand \<Rightarrow> Inr (join_with '':'' ([IPV6_PREFIX cfg, IPV6_SUBNET cfg] @ rand)))"

text \<open>The hextets of the configured prefix and subnet, as \<open>randomIPv6\<close> cuts them.\<close>

definition prefix_hextets :: "config \<Rightarrow> string list" where
  "prefix_hextets cfg = filter_Boolean (split_on (CHR '':'') (IPV6_PREFIX cfg))"

definition subnet_hextets :: "config \<Rightarrow> string list" where
  "subnet_hextets cfg = filter_Boolean (split_on (CHR '':'') (IPV6_SUBNET cfg))"

text \<open>A hextet as the address syntax has it: one to four lowercase hexadecimal digits.\<close>

definition is_hextet :: "string \<Rightarrow> bool" where
  "is_hextet h = (1 \<le> length h \<and> length h \<le> 4 \<and> list_all (\<lambda>c. c \<in> set hex_chars) h)"

section \<open>JSON values and plain objects\<close>

text \<open>
  What \<open>JSON.parse\<close> can return. Numbers are kept as integers: only whether a value is
  truthy is ever looked at.
\<close>

datatype jsval =
    JNull
  | JBool bool
  | JNum int
  | JStr string
  | JArr "jsval list"
  | JObj "(string \<times> jsval) list"

fun truthy :: "jsval \<Rightarrow> bool" where
  "truthy JNull = False"
| "truthy (JBool b) = b"
| "truthy (JNum n) = (n \<noteq> 0)"
| "truthy (JStr s) = (s \<noteq> [])"
| "truthy (JArr xs) = True"
| "truthy (JObj kvs) = True"

text \<open>\<open>typeof v === 'object'\<close>.\<close>

fun typeof_object :: "jsval \<Rightarrow> bool" where
  "typeof_object JNull = True"
| "typeof_object (JArr xs) = True"
| "typeof_object (JObj kvs) = True"
| "typeof_object v = False"

text \<open>\<open>!v\<close> for a value that may be \<open>undefined\<close> (\<open>None\<close>).\<close>

definition js_not :: "jsval option \<Rightarrow> bool" where
  "js_not v = (case v of None \<Rightarrow> True | Some x \<Rightarrow> \<not> truthy x)"

text \<open>An optional string is truthy when it is there and not empty; \<open>a || b\<close> on two of them.\<close>

definition str_truthy :: "string option \<Rightarrow> bool" where
  "str_truthy a = (case a of None \<Rightarrow> False | Some s \<Rightarrow> s \<noteq> [])"

definition js_or :: "string option \<Rightarrow> string option \<Rightarrow> string option" where
  "js_or a b = (if str_truthy a then a else b)"

fun nat_digits :: "nat \<Rightarrow> string" where
  "nat_digits n =
     (if n < 10 then [hex_digit n] else nat_digits (n div 10) @ [hex_digit (n mod 10)])"

declare nat_digits.simps [simp del]

text \<open>\<open>String(n)\<close> for an integer below \<open>10^21\<close> in size (above, JavaScript prints an
  exponent).\<close>

definition String_int :: "int \<Rightarrow> string" where
  "String_int n = (if n < 0 then CHR ''-'' # nat_digits (nat (- n)) else nat_digits (nat n))"

text \<open>The own enumerable properties of a value: those of an object, the indices of an
  array, none of a primitive. This is what \<open>Object.assign\<close> copies from its source.\<close>

fun own_entries :: "jsval \<Rightarrow> (string \<times> jsval) list" where
  "own_entries (JObj kvs) = kvs"
| "own_entries (JArr xs) = zip (map nat_digits [0..<length xs]) xs"
| "own_entries v = []"

text \<open>
  A plain object is the list of its own enumerable properties, in insertion order (the
  order in which JavaScript enumerates index-like names is not modelled), and its
  prototype link: \<open>Object.prototype\<close> for an object made by \<open>{}\<close>, or what an assignment to
  \<open>__proto__\<close> has put there.
\<close>

datatype prototype = Object_prototype | Null_prototype | Value_prototype jsval

record jsobject =
  own :: "(string \<times> jsval) list"
  proto :: prototype

definition empty_object :: jsobject where
  "empty_object = \<lparr> own = [], proto = Object_prototype \<rparr>"

text \<open>Writing an own property: an existing one keeps its place, a new one goes last.\<close>

fun define_own :: "string \<Rightarrow> 'v \<Rightarrow> (string \<times> 'v) list \<Rightarrow> (string \<times> 'v) list" where
  "define_own k v [] = [(k, v)]"
| "define_own k v ((k', v') # rest) =
     (if k' = k then (k, v) # rest else (k', v') # define_own k v rest)"

text \<open>The own property of a name in a property list; \<open>None\<close> is \<open>undefined\<close>.\<close>

definition obj_get :: "(string \<times> 'v) list \<Rightarrow> string \<Rightarrow> 'v option" where
  "obj_get props k = map_of props k"

text \<open>
  \<open>__proto__\<close> is an accessor property of \<open>Object.prototype\<close>. An assignment to that name
  runs its setter when the object has no own property of the name and the way up the
  prototype chain meets no data property of the name before \<open>Object.prototype\<close>: a
  parsed object linked in as prototype may have one, an array has none, and a \<open>null\<close>
  link ends the chain before the setter.
\<close>

definition reaches_proto_setter :: "jsobject \<Rightarrow> bool" where
  "reaches_proto_setter obj =
     (''__proto__'' \<notin> fst ` set (own obj) \<and>
      (case proto obj of
         Object_prototype \<Rightarrow> True
       | Null_prototype \<Rightarrow> False
       | Value_prototype (JObj kvs) \<Rightarrow> ''__proto__'' \<notin> fst ` set kvs
       | Value_prototype v \<Rightarrow> True))"

text \<open>
  \<open>obj[k] = v\<close>. The setter of \<open>__proto__\<close> links an object, an array or \<open>null\<close> in as the
  prototype and ignores every other value; either way no own property appears. Every
  other assignment writes an own property.
\<close>

definition obj_set :: "string \<Rightarrow> jsval \<Rightarrow> jsobject \<Rightarrow> jsobject" where
  "obj_set k v obj =
     (if k = ''__proto__'' \<and> reaches_proto_setter obj
      then (case v of
              JObj kvs \<Rightarrow> obj\<lparr>proto := Value_prototype v\<rparr>
            | JArr xs \<Rightarrow> obj\<lparr>proto := Value_prototype v\<rparr>
            | JNull \<Rightarrow> obj\<lparr>proto := Null_prototype\<rparr>
            | _ \<Rightarrow> obj)
      else obj\<lparr>own := define_own k v (own obj)\<rparr>)"

text \<open>
  \<open>obj[k]\<close>: the own property, else the property of the object or array linked in as
  prototype. The built-in members of \<open>Object.prototype\<close> and \<open>Array.prototype\<close>
  (\<open>constructor\<close>, \<open>toString\<close> and the like) are left out: the handler reads no such name.
\<close>

definition obj_read :: "jsobject \<Rightarrow> string \<Rightarrow> jsval option" where
  "obj_read obj k =
     (case map_of (own obj) k of
        Some v \<Rightarrow> Some v
      | None \<Rightarrow>
          (case proto obj of
             Value_prototype (JObj kvs) \<Rightarrow> map_of kvs k
           | Value_prototype (JArr xs) \<Rightarrow>
               if k = ''length'' then Some (JNum (int (length xs)))
               else map_of (own_entries (JArr xs)) k
           | _ \<Rightarrow> None))"

text \<open>\<open>Object.assign(target, source)\<close> assigns every own enumerable property of the
  source to the target, in order, each as \<open>target[k] = v\<close>.\<close>

definition Object_assign :: "jsobject \<Rightarrow> jsval \<Rightarrow> jsobject" where
  "Object_assign target source = foldl (\<lambda>t (k, v). obj_set k v t) target (own_entries source)"

section \<open>The world outside the module\<close>

text \<open>
  Node's libraries and the operating system are parameters: the HMAC primitive, the JSON
  and URL parsers, the clock, the entropy source, the shell, the UDP probe and the
  upstream fetch. A shell command answers with an exit code (\<open>None\<close> when a signal ended
  it) and its two output streams.
\<close>

record cmd_result =
  cmd_code :: "int option"
  cmd_out :: string
  cmd_err :: string

datatype agent =
    Http_Agent "string option"
  | Https_Agent "string option"
  | SocksProxyAgent string "string option"
  | HttpProxyAgent string "string option"
  | HttpsProxyAgent string "string option"

record fetch_init =
  init_method :: string
  init_headers :: jsobject
  init_httpAgent :: "agent option"
  init_httpsAgent :: "agent option"
  init_signal :: bool
  init_body :: bool

record fetch_error =
  err_name :: string
  err_type :: "string option"
  err_message :: string

text \<open>An upstream response: its status, its header lines as received (a name may come
  more than once, in any letter case) and its body.\<close>

record upstream_response =
  up_status :: nat
  up_headers :: "(string \<times> string) list"
  up_body :: "byte list"

datatype fetch_result = Fetched upstream_response | Failed fetch_error

record runtime =
  hmac_sha256 :: "byte list \<Rightarrow> byte list \<Rightarrow> 256 word"
  JSON_parse :: "string \<Rightarrow> jsval option"
  URL_origin :: "string \<Rightarrow> string option"
  URL_protocol :: "string \<Rightarrow> string option"
  Date_now :: int
  os_entropy :: "nat \<Rightarrow> byte"
  random_below :: "nat \<Rightarrow> nat"
  os_platform :: string
  runCmd :: "string \<Rightarrow> cmd_result"
  udp_bind_connect :: "string \<Rightarrow> bool"
  hasAbort :: bool
  fetch :: "string \<Rightarrow> fetch_init \<Rightarrow> fetch_result"

text \<open>
  A request as the handler reads it: the method, \<open>req.headers\<close> (names as Node delivers
  them, values strings) and the query parameters the handler looks at, each absent or a
  single string.
\<close>

record request =
  req_method :: string
  req_headers :: "(string \<times> string) list"
  query_url :: "string option"
  query_headers :: "string option"
  query_referer :: "string option"
  query_cookies :: "string option"
  query_ua :: "string option"
  query_proxy :: "string option"
  query_token :: "string option"

datatype body = Text string | Bytes "byte list"

record response =
  status :: nat
  res_headers :: "(string \<times> string) list"
  res_body :: body

text \<open>What a request did to the world, in order.\<close>

datatype effect =
    Eff_randomIPv6
  | Eff_runCmd string
  | Eff_probe string
  | Eff_agents "agent option" "agent option"
  | Eff_fetch string fetch_init

section \<open>The token validator\<close>

text \<open>\<open>Buffer.from(s, 'utf8')\<close> on a string of code points below 256: one byte below 128,
  two bytes from there on.\<close>

fun utf8 :: "string \<Rightarrow> byte list" where
  "utf8 [] = []"
| "utf8 (c # cs) =
     (let n = (of_char c :: nat)
      in if n < 128 then of_nat n # utf8 cs
         else of_nat (192 + n div 64) # of_nat (128 + n mod 64) # utf8 cs)"

text \<open>\<open>Math.floor(Date.now() / 1000 / (3*60)) * (3*60)\<close>. The quotient is computed in
  floating point; for every time a \<open>Date\<close> can hold it is the integer quotient.\<close>

definition nowBucket :: "int \<Rightarrow> int" where
  "nowBucket now = now div 1000 div (3 * 60) * (3 * 60)"

definition deriveDynamicKey :: "runtime \<Rightarrow> byte list" where
  "deriveDynamicKey rt = utf8 (String_int (nowBucket (Date_now rt)))"

text \<open>\<open>.digest('hex')\<close>: the 32 bytes of the digest, two lowercase digits each.\<close>

definition digest_hex :: "256 word \<Rightarrow> string" where
  "digest_hex d = map (\<lambda>i. hex_digit (unat d div 16 ^ (63 - i))) [0..<64]"

text \<open>\<open>crypto.timingSafeEqual\<close> throws when the two buffers differ in length.\<close>

definition timingSafeEqual :: "byte list \<Rightarrow> byte list \<Rightarrow> js_error + bool" where
  "timingSafeEqual a b =
     (if length a \<noteq> length b then Inl (RangeError ''ERR_CRYPTO_TIMING_SAFE_EQUAL_LENGTH'')
      else Inr (a = b))"

definition expected_token :: "runtime \<Rightarrow> string" where
  "expected_token rt = digest_hex (hmac_sha256 rt (deriveDynamicKey rt) (utf8 ''proxy-access''))"

text \<open>The body of the \<open>try\<close> block; \<open>token || ''\<close> turns \<open>undefined\<close> into the empty string.\<close>

definition validateApiToken_try :: "runtime \<Rightarrow> string option \<Rightarrow> js_error + bool" where
  "validateApiToken_try rt token =
     (let expected = expected_token rt
      in timingSafeEqual (utf8 (case token of None \<Rightarrow> [] | Some t \<Rightarrow> t)) (utf8 expected))"

text \<open>The \<open>catch\<close> turns every exception of the body into \<open>false\<close>. The result is a sum so
  that an exception leaving the function would be visible as \<open>Inl\<close>.\<close>

definition validateApiToken :: "runtime \<Rightarrow> string option \<Rightarrow> js_error + bool" where
  "validateApiToken rt token =
     (case validateApiToken_try rt token of Inl e \<Rightarrow> Inr False | Inr b \<Rightarrow> Inr b)"

section \<open>Header rewriting\<close>

text \<open>Strip headers that may reveal proxying or cause WAF blocks.\<close>

definition STRIP_REQ_HEADERS :: "string list" where
  "STRIP_REQ_HEADERS =
     [''cf-connecting-ip'', ''cf-ipcountry'', ''cf-ray'', ''cf-visitor'', ''cf-worker'',
      ''cf-ew-via'', ''x-forwarded-for'', ''x-forwarded-proto'', ''x-real-ip'', ''cdn-loop'']"

definition parseHeadersParam :: "runtime \<Rightarrow> string option \<Rightarrow> jsval" where
  "parseHeadersParam rt headersStr =
     (if \<not> str_truthy headersStr then JObj []
      else (case JSON_parse rt (the headersStr) of
              None \<Rightarrow> JObj []
            | Some val \<Rightarrow> if truthy val \<and> typeof_object val then val else JObj []))"

text \<open>
  The upstream response's \<open>Headers\<close> object (node-fetch) holds the header lines under
  lowercased names. Its \<open>entries()\<close> yields every name once, with what \<open>get\<close> returns for
  it: the values of the lines of that name joined with a comma and a space, lowercased for
  \<open>content-encoding\<close>. node-fetch yields the names sorted; the order is not modelled.
\<close>

definition Headers_names :: "(string \<times> string) list \<Rightarrow> string list" where
  "Headers_names lines = remdups (map (\<lambda>l. toLowerCase (fst l)) lines)"

definition Headers_getAll :: "(string \<times> string) list \<Rightarrow> string \<Rightarrow> string list" where
  "Headers_getAll lines name = map snd (filter (\<lambda>l. toLowerCase (fst l) = toLowerCase name) lines)"

definition Headers_get :: "(string \<times> string) list \<Rightarrow> string \<Rightarrow> string option" where
  "Headers_get lines name =
     (let values = Headers_getAll lines name
      in if values = [] then None
         else (let value = join_with '', '' values
               in if toLowerCase name = ''content-encoding'' then Some (toLowerCase value)
                  else Some value))"

definition Headers_entries :: "(string \<times> string) list \<Rightarrow> (string \<times> string) list" where
  "Headers_entries lines =
     concat (map (\<lambda>name. case Headers_get lines name of None \<Rightarrow> [] | Some v \<Rightarrow> [(name, v)])
               (Headers_names lines))"

definition skip_headers :: "string list" where
  "skip_headers = [''transfer-encoding'', ''content-length'', ''connection'', ''keep-alive'', ''server'']"

text \<open>\<open>out[k] = v\<close> for a string \<open>v\<close>. \<open>out\<close> starts as \<open>{}\<close> and is written nowhere else, so
  an assignment to \<open>__proto__\<close> reaches the setter, which ignores a string.\<close>

definition out_set :: "string \<Rightarrow> string \<Rightarrow> (string \<times> string) list \<Rightarrow> (string \<times> string) list" where
  "out_set k v out = (if k = ''__proto__'' then out else define_own k v out)"

text \<open>The loop of \<open>filterResponseHeaders\<close> over the entries, then the function itself; the
  result is the property list of the plain object \<open>out\<close>.\<close>

fun filter_entries :: "(string \<times> string) list \<Rightarrow> (string \<times> string) list \<Rightarrow> (string \<times> string) list" where
  "filter_entries [] out = out"
| "filter_entries ((k, v) # rest) out =
     (if toLowerCase k \<notin> set skip_headers then filter_entries rest (out_set k v out)
      else filter_entries rest out)"

definition filterResponseHeaders :: "(string \<times> string) list \<Rightarrow> (string \<times> string) list" where
  "filterResponseHeaders headers = filter_entries (Headers_entries headers) []"

text \<open>The loop over \<open>Object.entries(req.headers)\<close> in \<open>handler\<close>.\<close>

fun copy_request_headers :: "(string \<times> string) list \<Rightarrow> jsobject \<Rightarrow> jsobject" where
  "copy_request_headers [] fwdHeaders = fwdHeaders"
| "copy_request_headers ((k, v) # rest) fwdHeaders =
     (let key = toLowerCase k
      in if key = ''host'' then copy_request_headers rest fwdHeaders
         else if key \<in> set STRIP_REQ_HEADERS then copy_request_headers rest fwdHeaders
         else copy_request_headers rest (obj_set k (JStr v) fwdHeaders))"

definition default_user_agent :: string where
  "default_user_agent = ''Mozilla/5.0 (Windows NT 10.0; Win64; x64) AppleWebKit/537.36 (KHTML, like Gecko) Chrome/126.0.0.0 Safari/537.36''"

definition default_accept :: string where
  "default_accept = ''text/html,application/xhtml+xml,application/xml;q=0.9,image/avif,image/webp,*/*;q=0.8''"

text \<open>The inbound transform of \<open>handler\<close>: the object \<open>fwdHeaders\<close>, from
  \<open>const fwdHeaders = {}\<close> to the cookie override.\<close>

definition buildFwdObject :: "runtime \<Rightarrow> request \<Rightarrow> jsval \<Rightarrow> jsobject" where
  "buildFwdObject rt req extraHeaders =
     (let h0 = copy_request_headers (req_headers req) empty_object;
          h1 = Object_assign h0 extraHeaders;
          h2 = (if str_truthy (query_ua req) then obj_set ''user-agent'' (JStr (the (query_ua req))) h1
                else if js_not (obj_read h1 ''user-agent'')
                     then obj_set ''user-agent'' (JStr default_user_agent) h1
                else h1);
          h3 = (if js_not (obj_read h2 ''accept'') then obj_set ''accept'' (JStr default_accept) h2
                else h2);
          h4 = (if js_not (obj_read h3 ''accept-language'')
                then obj_set ''accept-language'' (JStr ''en-US,en;q=0.9'') h3
                else h3);
          h5 = (if str_truthy (query_referer req) \<and> js_not (obj_read h4 ''referer'')
                then (let h = obj_set ''referer'' (JStr (the (query_referer req))) h4
                      in if js_not (obj_read h ''origin'')
                         then (case URL_origin rt (the (query_referer req)) of
                                 None \<Rightarrow> h
                               | Some origin \<Rightarrow> obj_set ''origin'' (JStr origin) h)
                         else h)
                else h4)
      in if str_truthy (query_cookies req)
         then obj_set ''cookie'' (JStr (the (query_cookies req))) h5
         else h5)"

text \<open>The header map the upstream call gets out of that object: its own properties.\<close>

definition buildFwdHeaders :: "runtime \<Rightarrow> request \<Rightarrow> jsval \<Rightarrow> (string \<times> jsval) list" where
  "buildFwdHeaders rt req extraHeaders = own (buildFwdObject rt req extraHeaders)"

section \<open>Interface, probe and transports\<close>

text \<open>\<open>s.includes(sub)\<close>.\<close>

fun str_includes :: "string \<Rightarrow> string \<Rightarrow> bool" where
  "str_includes [] sub = (sub = [])"
| "str_includes (x # xs) sub = (take (length sub) (x # xs) = sub \<or> str_includes xs sub)"

text \<open>Each operation returns what it did to the world together with its result.\<close>

definition checkInterface :: "config \<Rightarrow> runtime \<Rightarrow> effect list \<times> bool" where
  "checkInterface cfg rt =
     (let r = runCmd rt ''ip link show''
      in ([Eff_runCmd ''ip link show''],
          if cmd_code r \<noteq> Some 0 then False else str_includes (cmd_out r) (INTERFACE cfg)))"

definition add_command :: "config \<Rightarrow> string \<Rightarrow> string" where
  "add_command cfg ip = ''ip -6 addr add '' @ ip @ ''/128 dev '' @ INTERFACE cfg"

definition addIPv6ToInterface :: "config \<Rightarrow> runtime \<Rightarrow> string \<Rightarrow> effect list \<times> bool" where
  "addIPv6ToInterface cfg rt ip =
     (if \<not> ENABLE_ASSIGN cfg then ([], True)
      else (let r = runCmd rt (add_command cfg ip)
            in ([Eff_runCmd (add_command cfg ip)],
                if cmd_code r \<noteq> Some 0 \<and> \<not> str_includes (toLowerCase (cmd_err r)) ''file exists''
                then False else True)))"

definition testIPv6Connectivity :: "runtime \<Rightarrow> string \<Rightarrow> effect list \<times> bool" where
  "testIPv6Connectivity rt ip = ([Eff_probe ip], udp_bind_connect rt ip)"

definition pickAgents :: "string option \<Rightarrow> agent option \<times> agent option" where
  "pickAgents localAddress = (Some (Http_Agent localAddress), Some (Https_Agent localAddress))"

text \<open>\<open>s.trim()\<close> on code points below 256.\<close>

definition is_space :: "char \<Rightarrow> bool" where
  "is_space c = ((of_char c :: nat) \<in> set [9, 10, 11, 12, 13, 32, 160])"

definition trim :: "string \<Rightarrow> string" where
  "trim s = rev (dropWhile is_space (rev (dropWhile is_space s)))"

text \<open>\<open>arr[Math.floor(Math.random()*arr.length)]\<close>: the draw is the runtime's; an index
  outside the array reads \<open>undefined\<close>.\<close>

definition chooseFromList :: "runtime \<Rightarrow> string option \<Rightarrow> string option" where
  "chooseFromList rt listStr =
     (let arr = filter_Boolean (map trim (split_on (CHR '','')
                   (case js_or listStr (Some []) of None \<Rightarrow> [] | Some s \<Rightarrow> s)))
      in if arr = [] then None
         else (let i = random_below rt (length arr)
               in if i < length arr then Some (arr ! i) else None))"

definition buildProxyAgents :: "runtime \<Rightarrow> string \<Rightarrow> string option \<Rightarrow> agent option \<times> agent option" where
  "buildProxyAgents rt proxyUrl localAddress =
     (case URL_protocol rt proxyUrl of
        None \<Rightarrow> (None, None)
      | Some protocol \<Rightarrow>
          (let proto = toLowerCase protocol
           in if take 5 proto = ''socks''
              then (Some (SocksProxyAgent proxyUrl localAddress), Some (SocksProxyAgent proxyUrl localAddress))
              else if proto = ''http:'' \<or> proto = ''https:''
              then (Some (HttpProxyAgent proxyUrl localAddress), Some (HttpsProxyAgent proxyUrl localAddress))
              else (None, None)))"

text \<open>The local address a transport binds, if any.\<close>

fun agent_localAddress :: "agent \<Rightarrow> string option" where
  "agent_localAddress (Http_Agent la) = la"
| "agent_localAddress (Https_Agent la) = la"
| "agent_localAddress (SocksProxyAgent u la) = la"
| "agent_localAddress (HttpProxyAgent u la) = la"
| "agent_localAddress (HttpsProxyAgent u la) = la"

section \<open>The relay handler\<close>

definition ensureUrlHasScheme :: "string \<Rightarrow> string" where
  "ensureUrlHasScheme url =
     (let l = toLowerCase url
      in if \<not> (take 7 l = ''http://'' \<or> take 8 l = ''https://'') then ''https://'' @ url else url)"

definition upper_char :: "char \<Rightarrow> char" where
  "upper_char c =
     (case map_of (zip ''abcdefghijklmnopqrstuvwxyz'' ''ABCDEFGHIJKLMNOPQRSTUVWXYZ'') c of
        None \<Rightarrow> c
      | Some u \<Rightarrow> u)"

definition toUpperCase :: "string \<Rightarrow> string" where
  "toUpperCase s = map upper_char s"

definition send :: "nat \<Rightarrow> string \<Rightarrow> response" where
  "send st msg = \<lparr> status = st, res_headers = [], res_body = Text msg \<rparr>"

text \<open>A step of the handler either goes on with a value, answers the request, or throws.\<close>

datatype 'a step = Continue 'a | Respond response | Throw js_error

text \<open>The authentication block at the top of \<open>handler\<close>. \<open>req.header('API-Token')\<close> is
  Express reading \<open>req.headers['api-token']\<close>.\<close>

definition authenticate :: "config \<Rightarrow> runtime \<Rightarrow> request \<Rightarrow> unit step" where
  "authenticate cfg rt req =
     (if REQUIRE_TOKEN cfg
      then (let apiToken = js_or (obj_get (req_headers req) ''api-token'') (query_token req)
            in if \<not> str_truthy apiToken then Respond (send 401 ''Unauthorized: invalid API-Token'')
               else (case validateApiToken rt apiToken of
                       Inl e \<Rightarrow> Throw e
                     | Inr ok \<Rightarrow> if \<not> ok then Respond (send 401 ''Unauthorized: invalid API-Token'')
                                else Continue ()))
      else Continue ())"

text \<open>The health answer to a \<open>GET\<close> without \<open>url\<close>.\<close>

definition health :: "config \<Rightarrow> runtime \<Rightarrow> effect list \<times> response" where
  "health cfg rt =
     (if os_platform rt \<noteq> ''linux''
      then ([], send 200 (''i6.js running (v'' @ VERSION cfg @ '') on '' @ os_platform rt))
      else ([Eff_runCmd ''ip -6 addr show''],
            send 200 (''i6.js running (v'' @ VERSION cfg @ '')'' @ [CHR 0x0A]
                      @ cmd_out (runCmd rt ''ip -6 addr show''))))"

text \<open>From \<open>let localIP = randomIPv6()\<close> to the end of the platform branch: the local
  address the transports may bind, \<open>None\<close> for \<open>null\<close> and \<open>undefined\<close>.\<close>

definition resolveEgress :: "config \<Rightarrow> runtime \<Rightarrow> effect list \<times> string option step" where
  "resolveEgress cfg rt =
     (case randomIPv6 cfg (os_entropy rt) of
        Inl e \<Rightarrow> ([], Throw e)
      | Inr localIP \<Rightarrow>
          (let e0 = [Eff_randomIPv6]
           in if os_platform rt = ''linux''
              then (let (e1, okIface) = checkInterface cfg rt
                    in if \<not> okIface
                       then (e0 @ e1, Respond (send 500 (''Interface '' @ INTERFACE cfg @ '' not found'')))
                       else (let (e2, added) = (if str_truthy localIP
                                                then addIPv6ToInterface cfg rt (the localIP)
                                                else ([], True))
                             in if \<not> added
                                then (e0 @ e1 @ e2, Respond (send 500 ''Failed to configure IPv6 address''))
                                else (let (e3, ok) = (if str_truthy localIP
                                                      then testIPv6Connectivity rt (the localIP)
                                                      else ([], True))
                                      in (e0 @ e1 @ e2 @ e3,
                                          Continue (if \<not> ok then None else localIP)))))
              else (e0, Continue None)))"

text \<open>Upstream proxy selection (query param wins, else env list) and the transports.\<close>

definition selectAgents :: "config \<Rightarrow> runtime \<Rightarrow> request \<Rightarrow> string option \<Rightarrow> agent option \<times> agent option" where
  "selectAgents cfg rt req localIP =
     (let upstream = js_or (query_proxy req) (chooseFromList rt (PROXY_LIST cfg))
      in if str_truthy upstream then buildProxyAgents rt (the upstream) localIP
         else if str_truthy localIP then pickAgents localIP
         else (None, None))"

text \<open>The \<open>init\<close> object of the upstream call: a body goes along for every method but
  \<open>GET\<close> and \<open>HEAD\<close>, an abort signal when the platform has \<open>AbortController\<close>.\<close>

definition fetch_init_for :: "runtime \<Rightarrow> request \<Rightarrow> jsobject \<Rightarrow> agent option \<times> agent option \<Rightarrow> fetch_init" where
  "fetch_init_for rt req fwdHeaders agents =
     (let method = toUpperCase (req_method req)
      in \<lparr> init_method = method, init_headers = fwdHeaders,
           init_httpAgent = fst agents, init_httpsAgent = snd agents,
           init_signal = hasAbort rt,
           init_body = (method \<notin> set [''GET'', ''HEAD'']) \<rparr>)"

text \<open>What the handler answers after the upstream call: the upstream's status, filtered
  headers and body, or the \<open>catch\<close> branch.\<close>

definition upstream_outcome :: "fetch_result \<Rightarrow> response" where
  "upstream_outcome result =
     (case result of
        Fetched r \<Rightarrow>
          \<lparr> status = up_status r,
            res_headers = filterResponseHeaders (up_headers r),
            res_body = Bytes (up_body r) \<rparr>
      | Failed e \<Rightarrow>
          if err_name e = ''AbortError'' \<or> err_type e = Some ''aborted''
          then send 504 ''Request timed out''
          else send 502 (''Upstream error: '' @ err_message e))"

text \<open>The \<open>try\<close>/\<open>catch\<close> around the upstream call. The timer only decides how \<open>fetch\<close>
  ends; that is part of the runtime's answer.\<close>

definition forward :: "runtime \<Rightarrow> request \<Rightarrow> string \<Rightarrow> jsobject \<Rightarrow> agent option \<times> agent option \<Rightarrow> effect list \<times> response" where
  "forward rt req targetUrl fwdHeaders agents =
     (let init = fetch_init_for rt req fwdHeaders agents
      in ([Eff_fetch targetUrl init], upstream_outcome (fetch rt targetUrl init)))"

text \<open>Everything in \<open>handler\<close> after the authentication block.\<close>

definition relay :: "config \<Rightarrow> runtime \<Rightarrow> request \<Rightarrow> effect list \<times> (js_error + response)" where
  "relay cfg rt req =
     (if req_method req = ''GET'' \<and> \<not> str_truthy (query_url req)
      then (let (e, r) = health cfg rt in (e, Inr r))
      else if \<not> str_truthy (query_url req) then ([], Inr (send 400 ''Missing url''))
      else
        (let targetUrl = ensureUrlHasScheme (the (query_url req));
             extraHeaders = parseHeadersParam rt (query_headers req)
         in case resolveEgress cfg rt of
              (e1, Throw e) \<Rightarrow> (e1, Inl e)
            | (e1, Respond r) \<Rightarrow> (e1, Inr r)
            | (e1, Continue localIP) \<Rightarrow>
                (let agents = selectAgents cfg rt req localIP;
                     fwdHeaders = buildFwdObject rt req extraHeaders;
                     (e3, r) = forward rt req targetUrl fwdHeaders agents
                 in (e1 @ [Eff_agents (fst agents) (snd agents)] @ e3, Inr r))))"

definition handler :: "config \<Rightarrow> runtime \<Rightarrow> request \<Rightarrow> effect list \<times> (js_error + response)" where
  "handler cfg rt req =
     (case authenticate cfg rt req of
        Throw e \<Rightarrow> ([], Inl e)
      | Respond r \<Rightarrow> ([], Inr r)
      | Continue u \<Rightarrow> relay cfg rt req)"

text \<open>Which effects are upstream calls.\<close>

fun is_fetch :: "effect \<Rightarrow> bool" where
  "is_fetch (Eff_fetch url init) = True"
| "is_fetch e = False"

section \<open>Sample inputs\<close>

text \<open>A runtime whose parsers reject everything, whose shell fails and whose fetch fails;
  the examples below override what they need.\<close>

definition sample_mac :: "byte list \<Rightarrow> byte list \<Rightarrow> 256 word" where
  "sample_mac key msg = of_nat (foldl (\<lambda>a b. a * 256 + unat b) 0 (key @ msg))"

definition sample_runtime :: runtime where
  "sample_runtime =
     \<lparr> hmac_sha256 = sample_mac,
       JSON_parse = (\<lambda>s. None),
       URL_origin = (\<lambda>s. None),
       URL_protocol = (\<lambda>s. None),
       Date_now = 1700000123456,
       os_entropy = (\<lambda>n. of_nat (37 * n)),
       random_below = (\<lambda>n. 0),
       os_platform = ''linux'',
       runCmd = (\<lambda>c. \<lparr> cmd_code = Some 1, cmd_out = [], cmd_err = [] \<rparr>),
       udp_bind_connect = (\<lambda>ip. False),
       hasAbort = True,
       fetch = (\<lambda>url init. Failed \<lparr> err_name = ''FetchError'', err_type = Some ''system'',
                                      err_message = ''connect ECONNREFUSED'' \<rparr>) \<rparr>"

definition sample_request :: request where
  "sample_request =
     \<lparr> req_method = ''GET'',
       req_headers = [(''host'', ''evil''), (''cf-connecting-ip'', ''1.2.3.4''), (''x-test'', ''1'')],
       query_url = Some ''example.com'',
       query_headers = None,
       query_referer = None,
       query_cookies = None,
       query_ua = None,
       query_proxy = None,
       query_token = None \<rparr>"

section \<open>Reading digits back\<close>

text \<open>The value of a digit character and of a digit string in a base: the inverse of the
  renderings above, used to show that they lose nothing.\<close>

definition digit_val :: "char \<Rightarrow> nat" where
  "digit_val c = length (takeWhile (\<lambda>x. x \<noteq> c) hex_chars)"

definition digits_val :: "nat \<Rightarrow> string \<Rightarrow> nat" where
  "digits_val base ds = foldl (\<lambda>a c. a * base + digit_val c) 0 ds"

section \<open>Properties of the address generator\<close>

lemma split_on_no_sep: "c \<notin> set p \<Longrightarrow> split_on c p = [p]"
  by (induction p) auto

lemma split_on_append_sep:
  "c \<notin> set p \<Longrightarrow> split_on c (p @ c # rest) = p # split_on c rest"
  by (induction p) auto

lemma split_on_join_with:
  "ps \<noteq> [] \<Longrightarrow> \<forall>p \<in> set ps. c \<notin> set p \<Longrightarrow> split_on c (join_with [c] ps) = ps"
proof (induction "[c]" ps rule: join_with.induct)
  case 1
  then show ?case by simp
next
  case (2 p)
  then show ?case by (simp add: split_on_no_sep)
next
  case (3 p q ps)
  then show ?case by (simp add: split_on_append_sep)
qed

lemma hex_digit_in: "hex_digit d \<in> set hex_chars"
  unfolding hex_digit_def by (rule nth_mem) (simp add: hex_chars_def)

lemma toString16_digits: "list_all (\<lambda>c. c \<in> set hex_chars) (toString16 n)"
proof (induction n rule: toString16.induct)
  case (1 n)
  show ?case
  proof (cases "n < 16")
    case True
    then show ?thesis using hex_digit_in [of n] by (subst toString16.simps) simp
  next
    case False
    then show ?thesis using 1 hex_digit_in [of n] by (subst toString16.simps) simp
  qed
qed

lemma toString16_length: "n < 16 ^ k \<Longrightarrow> 0 < k \<Longrightarrow> length (toString16 n) \<le> k"
proof (induction n arbitrary: k rule: toString16.induct)
  case (1 n)
  show ?case
  proof (cases "n < 16")
    case True
    then show ?thesis using 1(3) by (subst toString16.simps) simp
  next
    case False
    then obtain j where k: "k = Suc j" using 1(3) by (cases k) auto
    with False 1(2) have j: "0 < j" by (cases j) auto
    from 1(2) k have "n div 16 < 16 ^ j" by (simp add: less_mult_imp_div_less mult.commute)
    from 1(1) [OF False this j] show ?thesis using False k by (subst toString16.simps) simp
  qed
qed

lemma toString16_nonempty: "toString16 n \<noteq> []"
  by (subst toString16.simps) simp

lemma padStart_length4: "w < 65536 \<Longrightarrow> length (padStart 4 (CHR ''0'') (toString16 w)) = 4"
proof -
  assume "w < 65536"
  then have "w < 16 ^ 4" by simp
  then have len: "length (toString16 w) \<le> 4" by (rule toString16_length) simp
  then show ?thesis by (simp add: padStart_def)
qed

lemma padStart_hextet: "w < 65536 \<Longrightarrow> is_hextet (padStart 4 (CHR ''0'') (toString16 w))"
proof -
  assume w: "w < 65536"
  have z: "CHR ''0'' \<in> set hex_chars" by (simp add: hex_chars_def)
  have "list_all (\<lambda>c. c \<in> set hex_chars) (padStart 4 (CHR ''0'') (toString16 w))"
    using toString16_digits [of w] z by (auto simp: padStart_def list_all_iff)
  then show ?thesis using padStart_length4 [OF w] by (simp add: is_hextet_def)
qed

lemma readUInt16BE_in_range:
  "off + 2 \<le> length buf \<Longrightarrow> \<exists>w. readUInt16BE buf off = Inr w \<and> w < 65536"
proof -
  assume a: "off + 2 \<le> length buf"
  have "unat (buf ! off) < 256" "unat (buf ! (off + 1)) < 256"
    using unsigned_less [of "buf ! off", where ?'a = nat]
      unsigned_less [of "buf ! (off + 1)", where ?'a = nat] by simp_all
  then have "unat (buf ! off) * 256 + unat (buf ! (off + 1)) < 65536" by linarith
  with a show ?thesis by (simp add: readUInt16BE_def)
qed

lemma push_hextets_ok:
  "\<forall>i \<in> set is. i * 2 + 2 \<le> length buf \<Longrightarrow>
   \<exists>new. push_hextets buf is rand = Inr (rand @ new) \<and> length new = length is \<and>
         list_all (\<lambda>h. is_hextet h \<and> length h = 4) new"
proof (induction "is" arbitrary: rand)
  case Nil
  then show ?case by simp
next
  case (Cons i "is")
  from Cons.prems have "i * 2 + 2 \<le> length buf" by simp
  from readUInt16BE_in_range [OF this] obtain w
    where w: "readUInt16BE buf (i * 2) = Inr w" "w < 65536" by blast
  let ?h = "padStart 4 (CHR ''0'') (toString16 w)"
  from Cons.prems have "\<forall>i \<in> set is. i * 2 + 2 \<le> length buf" by simp
  from Cons.IH [OF this, of "rand @ [?h]"] obtain new
    where new: "push_hextets buf is (rand @ [?h]) = Inr ((rand @ [?h]) @ new)"
      "length new = length is" "list_all (\<lambda>h. is_hextet h \<and> length h = 4) new" by blast
  have "push_hextets buf (i # is) rand = Inr (rand @ (?h # new))"
    using w new by simp
  moreover have "list_all (\<lambda>h. is_hextet h \<and> length h = 4) (?h # new)"
    using new(3) padStart_hextet [OF w(2)] padStart_length4 [OF w(2)] by simp
  ultimately show ?case using new(2) by (intro exI [of _ "?h # new"]) simp
qed

lemma colon_not_hex: "CHR '':'' \<notin> set hex_chars"
  by (simp add: hex_chars_def)

lemma is_hextet_no_colon: "is_hextet h \<Longrightarrow> CHR '':'' \<notin> set h"
  using colon_not_hex by (auto simp: is_hextet_def list_all_iff)

lemma split_on_nonempty: "split_on c s \<noteq> []"
  by (induction s) (auto split: list.splits)

lemma split_on_append: "split_on c (a @ c # b) = split_on c a @ split_on c b"
proof (induction a)
  case Nil
  then show ?case by simp
next
  case (Cons x xs)
  show ?case
  proof (cases "x = c")
    case True
    then show ?thesis using Cons.IH by simp
  next
    case False
    obtain p ps where p: "split_on c xs = p # ps"
      using split_on_nonempty [of c xs] by (cases "split_on c xs") auto
    with False Cons.IH show ?thesis by simp
  qed
qed

lemma split_on_join_concat:
  "ps \<noteq> [] \<Longrightarrow> split_on c (join_with [c] ps) = concat (map (split_on c) ps)"
proof (induction "[c]" ps rule: join_with.induct)
  case 1
  then show ?case by simp
next
  case (2 p)
  then show ?case by simp
next
  case (3 p q ps)
  then have "split_on c (join_with [c] (q # ps)) = concat (map (split_on c) (q # ps))" by simp
  then show ?case by (simp add: split_on_append)
qed

lemma split_on_parts_no_sep: "p \<in> set (split_on c s) \<Longrightarrow> c \<notin> set p"
proof (induction s arbitrary: p)
  case Nil
  then show ?case by simp
next
  case (Cons x xs)
  show ?case
  proof (cases "x = c")
    case True
    with Cons show ?thesis by auto
  next
    case False
    obtain q qs where q: "split_on c xs = q # qs"
      using split_on_nonempty [of c xs] by (cases "split_on c xs") auto
    with False Cons.prems have "p = x # q \<or> p \<in> set qs" by simp
    then show ?thesis
    proof
      assume "p = x # q"
      moreover have "c \<notin> set q" using Cons.IH [of q] q by simp
      ultimately show ?thesis using False by simp
    next
      assume "p \<in> set qs"
      then show ?thesis using Cons.IH [of p] q by simp
    qed
  qed
qed

lemma concat_split_id:
  "\<forall>p \<in> set ps. c \<notin> set p \<Longrightarrow> concat (map (split_on c) ps) = ps"
  by (induction ps) (simp_all add: split_on_no_sep)

lemma configured_no_colon:
  "\<forall>p \<in> set (prefix_hextets cfg @ subnet_hextets cfg). CHR '':'' \<notin> set p"
  using split_on_parts_no_sep
  by (auto simp: prefix_hextets_def subnet_hextets_def filter_Boolean_def)

lemma filter_Boolean_length: "length (filter_Boolean ps) \<le> length ps"
  by (simp add: filter_Boolean_def)

text \<open>What the generator of \<open>part_000\<close> does when there is room: the configured hextets,
  then \<open>8 - fixedCount\<close> random ones of four digits each, joined by colons.\<close>

lemma randomIPv6_room:
  assumes "length (prefix_hextets cfg) + length (subnet_hextets cfg) < 8"
  shows "\<exists>rand. randomIPv6 cfg entropy =
            Inr (Some (join_with '':'' (prefix_hextets cfg @ subnet_hextets cfg @ rand))) \<and>
          length (prefix_hextets cfg) + length (subnet_hextets cfg) + length rand = 8 \<and>
          list_all (\<lambda>h. is_hextet h \<and> length h = 4) rand"
proof -
  let ?n = "length (prefix_hextets cfg) + length (subnet_hextets cfg)"
  let ?r = "8 - ?n"
  let ?buf = "randomBytes entropy (?r * 2)"
  have "\<forall>i \<in> set [0..<?r]. i * 2 + 2 \<le> length ?buf"
    by (auto simp: randomBytes_def)
  from push_hextets_ok [OF this, of "[]"] obtain new
    where new: "push_hextets ?buf [0..<?r] [] = Inr new" "length new = ?r"
      "list_all (\<lambda>h. is_hextet h \<and> length h = 4) new" by auto
  have r: "nat (8 - (int (length (prefix_hextets cfg)) + int (length (subnet_hextets cfg)))) = ?r"
    by simp
  have g: "\<not> (8 - (int (length (prefix_hextets cfg)) + int (length (subnet_hextets cfg))) \<le> 0)"
    using assms by simp
  have "randomIPv6 cfg entropy =
      Inr (Some (join_with '':'' (prefix_hextets cfg @ subnet_hextets cfg @ new)))"
    unfolding randomIPv6_def prefix_hextets_def [symmetric] subnet_hextets_def [symmetric] Let_def
    using g new(1) by (simp add: r)
  then show ?thesis using new(2,3) assms by (intro exI [of _ new]) simp
qed

text \<open>What the generator of \<open>part_001\<close> does, whatever the configuration.\<close>

lemma randomIPv6_v0_shape:
  "\<exists>rand. randomIPv6_v0 cfg entropy =
            Inr (join_with '':'' ([IPV6_PREFIX cfg, IPV6_SUBNET cfg] @ rand)) \<and>
          length rand = 4 \<and> list_all (\<lambda>h. is_hextet h \<and> length h = 4) rand"
proof -
  let ?buf = "randomBytes entropy 8"
  have "\<forall>i \<in> set [0, 1, 2, 3 :: nat]. i * 2 + 2 \<le> length ?buf"
    by (simp add: randomBytes_def)
  from push_hextets_ok [OF this, of "[]"] obtain new
    where new: "push_hextets ?buf [0, 1, 2, 3] [] = Inr new" "length new = 4"
      "list_all (\<lambda>h. is_hextet h \<and> length h = 4) new" by auto
  have "randomIPv6_v0 cfg entropy = Inr (join_with '':'' ([IPV6_PREFIX cfg, IPV6_SUBNET cfg] @ new))"
    unfolding randomIPv6_v0_def Let_def using new(1) by simp
  with new(2,3) show ?thesis by blast
qed

lemma randomIPv6_v0_split:
  "\<exists>s rand. randomIPv6_v0 cfg entropy = Inr s \<and>
      split_on (CHR '':'') s =
        split_on (CHR '':'') (IPV6_PREFIX cfg) @ split_on (CHR '':'') (IPV6_SUBNET cfg) @ rand \<and>
      length rand = 4 \<and> list_all (\<lambda>h. length h = 4 \<and> is_hextet h) rand"
proof -
  from randomIPv6_v0_shape [of cfg entropy] obtain rand
    where rand: "randomIPv6_v0 cfg entropy =
        Inr (join_with '':'' ([IPV6_PREFIX cfg, IPV6_SUBNET cfg] @ rand))"
      "length rand = 4" "list_all (\<lambda>h. is_hextet h \<and> length h = 4) rand" by blast
  have nc: "\<forall>p \<in> set rand. CHR '':'' \<notin> set p"
    using rand(3) is_hextet_no_colon by (auto simp: list_all_iff)
  have "split_on (CHR '':'') (join_with '':'' ([IPV6_PREFIX cfg, IPV6_SUBNET cfg] @ rand)) =
      concat (map (split_on (CHR '':'')) ([IPV6_PREFIX cfg, IPV6_SUBNET cfg] @ rand))"
    by (rule split_on_join_concat) simp
  also have "\<dots> = split_on (CHR '':'') (IPV6_PREFIX cfg) @ split_on (CHR '':'') (IPV6_SUBNET cfg) @ rand"
    using concat_split_id [OF nc] by simp
  finally have sp: "split_on (CHR '':'') (join_with '':'' ([IPV6_PREFIX cfg, IPV6_SUBNET cfg] @ rand)) =
      split_on (CHR '':'') (IPV6_PREFIX cfg) @ split_on (CHR '':'') (IPV6_SUBNET cfg) @ rand" .
  have "list_all (\<lambda>h. length h = 4 \<and> is_hextet h) rand"
    using rand(3) by (auto simp: list_all_iff)
  with rand(1,2) sp show ?thesis by blast
qed

text \<open>
  Claim C3, as amended. When the configured prefix and subnet together have fewer than 8
  hextets, the address generator of \<open>part_000\<close> returns a string of exactly 8
  colon-separated parts: first the configured prefix and subnet hextets in order, copied
  as they are, then random parts of exactly four lowercase hexadecimal digits. All 8
  parts are hextets (one to four lowercase hexadecimal digits) exactly when the
  configured ones are. The address generator of \<open>part_001\<close> does not count: for every
  configuration its result is the configured prefix, the configured subnet and four
  random parts of four lowercase hexadecimal digits, joined by colons.
\<close>

theorem randomIPv6_structure:
  "(length (prefix_hextets cfg) + length (subnet_hextets cfg) < 8 \<longrightarrow>
      (\<exists>s rand. randomIPv6 cfg entropy = Inr (Some s) \<and>
         split_on (CHR '':'') s = prefix_hextets cfg @ subnet_hextets cfg @ rand \<and>
         length (split_on (CHR '':'') s) = 8 \<and>
         take (length (prefix_hextets cfg) + length (subnet_hextets cfg)) (split_on (CHR '':'') s)
           = prefix_hextets cfg @ subnet_hextets cfg \<and>
         list_all (\<lambda>h. length h = 4 \<and> is_hextet h) rand \<and>
         (list_all is_hextet (split_on (CHR '':'') s)
            \<longleftrightarrow> list_all is_hextet (prefix_hextets cfg @ subnet_hextets cfg)))) \<and>
   (\<exists>s rand. randomIPv6_v0 cfg entropy = Inr s \<and>
      split_on (CHR '':'') s =
        split_on (CHR '':'') (IPV6_PREFIX cfg) @ split_on (CHR '':'') (IPV6_SUBNET cfg) @ rand \<and>
      length rand = 4 \<and> list_all (\<lambda>h. length h = 4 \<and> is_hextet h) rand)"
proof (intro conjI impI)
  assume room: "length (prefix_hextets cfg) + length (subnet_hextets cfg) < 8"
  from randomIPv6_room [OF room, of entropy] obtain rand
    where rand: "randomIPv6 cfg entropy =
        Inr (Some (join_with '':'' (prefix_hextets cfg @ subnet_hextets cfg @ rand)))"
      "length (prefix_hextets cfg) + length (subnet_hextets cfg) + length rand = 8"
      "list_all (\<lambda>h. is_hextet h \<and> length h = 4) rand" by blast
  let ?parts = "prefix_hextets cfg @ subnet_hextets cfg @ rand"
  let ?s = "join_with '':'' ?parts"
  have ne: "?parts \<noteq> []" using rand(2) by auto
  have "\<forall>p \<in> set rand. CHR '':'' \<notin> set p"
    using rand(3) is_hextet_no_colon by (auto simp: list_all_iff)
  with configured_no_colon [of cfg] have "\<forall>p \<in> set ?parts. CHR '':'' \<notin> set p" by auto
  from split_on_join_with [OF ne this]
  have sp: "split_on (CHR '':'') ?s = ?parts" .
  have r4: "list_all (\<lambda>h. length h = 4 \<and> is_hextet h) rand"
    using rand(3) by (auto simp: list_all_iff)
  have iff: "list_all is_hextet ?parts \<longleftrightarrow> list_all is_hextet (prefix_hextets cfg @ subnet_hextets cfg)"
    using rand(3) by (auto simp: list_all_iff)
  have tk: "take (length (prefix_hextets cfg) + length (subnet_hextets cfg)) ?parts
      = prefix_hextets cfg @ subnet_hextets cfg" by simp
  have len: "length ?parts = 8" using rand(2) by simp
  show "\<exists>s rand. randomIPv6 cfg entropy = Inr (Some s) \<and>
         split_on (CHR '':'') s = prefix_hextets cfg @ subnet_hextets cfg @ rand \<and>
         length (split_on (CHR '':'') s) = 8 \<and>
         take (length (prefix_hextets cfg) + length (subnet_hextets cfg)) (split_on (CHR '':'') s)
           = prefix_hextets cfg @ subnet_hextets cfg \<and>
         list_all (\<lambda>h. length h = 4 \<and> is_hextet h) rand \<and>
         (list_all is_hextet (split_on (CHR '':'') s)
            \<longleftrightarrow> list_all is_hextet (prefix_hextets cfg @ subnet_hextets cfg))"
  proof (intro exI [of _ ?s] exI [of _ rand] conjI)
    show "randomIPv6 cfg entropy = Inr (Some ?s)" by (rule rand(1))
    show "split_on (CHR '':'') ?s = ?parts" by (rule sp)
    show "length (split_on (CHR '':'') ?s) = 8" by (simp only: sp len)
    show "take (length (prefix_hextets cfg) + length (subnet_hextets cfg)) (split_on (CHR '':'') ?s)
           = prefix_hextets cfg @ subnet_hextets cfg" by (simp only: sp tk)
    show "list_all (\<lambda>h. length h = 4 \<and> is_hextet h) rand" by (rule r4)
    show "list_all is_hextet (split_on (CHR '':'') ?s)
            \<longleftrightarrow> list_all is_hextet (prefix_hextets cfg @ subnet_hextets cfg)"
      by (simp only: sp iff)
  qed
next
  show "\<exists>s rand. randomIPv6_v0 cfg entropy = Inr s \<and>
      split_on (CHR '':'') s =
        split_on (CHR '':'') (IPV6_PREFIX cfg) @ split_on (CHR '':'') (IPV6_SUBNET cfg) @ rand \<and>
      length rand = 4 \<and> list_all (\<lambda>h. length h = 4 \<and> is_hextet h) rand"
    by (rule randomIPv6_v0_split)
qed

theorem randomIPv6_structure_witness:
  "length (prefix_hextets (load_config (\<lambda>_. None))) + length (subnet_hextets (load_config (\<lambda>_. None))) = 5 \<and>
   (\<exists>s rand. randomIPv6 (load_config (\<lambda>_. None)) (\<lambda>n. of_nat (37 * n)) = Inr (Some s) \<and>
        split_on (CHR '':'') s = [''2001'', ''41d0'', ''601'', ''1100'', ''5950''] @ rand \<and>
        length (split_on (CHR '':'') s) = 8 \<and>
        list_all (\<lambda>h. length h = 4 \<and> is_hextet h) rand)"
proof -
  let ?cfg = "load_config (\<lambda>_. None)"
  have p: "prefix_hextets ?cfg = [''2001'', ''41d0'', ''601'', ''1100'']"
    by (simp add: prefix_hextets_def load_config_def env_or_def filter_Boolean_def)
  have s: "subnet_hextets ?cfg = [''5950'']"
    by (simp add: subnet_hextets_def load_config_def env_or_def filter_Boolean_def)
  have n: "length (prefix_hextets ?cfg) + length (subnet_hextets ?cfg) = 5"
    unfolding p s by simp
  then have room: "length (prefix_hextets ?cfg) + length (subnet_hextets ?cfg) < 8" by simp
  from randomIPv6_structure [of ?cfg "\<lambda>n. of_nat (37 * n)", THEN conjunct1, rule_format, OF room]
  obtain s0 rand where r: "randomIPv6 ?cfg (\<lambda>n. of_nat (37 * n)) = Inr (Some s0)"
    "split_on (CHR '':'') s0 = prefix_hextets ?cfg @ subnet_hextets ?cfg @ rand"
    "length (split_on (CHR '':'') s0) = 8"
    "list_all (\<lambda>h. length h = 4 \<and> is_hextet h) rand" by blast
  from r(2) have "split_on (CHR '':'') s0 = [''2001'', ''41d0'', ''601'', ''1100'', ''5950''] @ rand"
    unfolding p s by simp
  with r(1,3,4) n show ?thesis by blast
qed

text \<open>The claim as written fails where a configured hextet is not lowercase hexadecimal
  (\<open>part_000\<close> copies it as it is) and, for \<open>part_001\<close>, wherever the configuration does not
  have exactly four hextets: here five of them give nine parts.\<close>

theorem randomIPv6_structure_counterexample:
  "randomIPv6 (load_config [''I6_IPV6_PREFIX'' \<mapsto> ''2001:DB8'']) (\<lambda>n. 0)
     = Inr (Some ''2001:DB8:5950:0000:0000:0000:0000:0000'') \<and>
   \<not> is_hextet ''DB8'' \<and>
   randomIPv6_v0 (load_config_v0 [''I6_IPV6_PREFIX'' \<mapsto> ''2001:41d0:601:1100'']) (\<lambda>n. 0)
     = Inr ''2001:41d0:601:1100:1000:0000:0000:0000:0000''"
  by code_simp

text \<open>
  Claim C4, as amended. When the configured prefix and subnet together have 8 hextets or
  more, the address generator of \<open>part_000\<close> returns \<open>null\<close>: no string at all, and no
  exception. The address generator of \<open>part_001\<close> has no such result: for every
  configuration it returns a string, which has at least four colon-separated parts more
  than the configuration has hextets.
\<close>

theorem randomIPv6_no_room:
  "(8 \<le> length (prefix_hextets cfg) + length (subnet_hextets cfg) \<longrightarrow>
      randomIPv6 cfg entropy = Inr None) \<and>
   (\<exists>s. randomIPv6_v0 cfg entropy = Inr s \<and>
      length (prefix_hextets cfg) + length (subnet_hextets cfg) + 4 \<le> length (split_on (CHR '':'') s))"
proof (intro conjI impI)
  assume "8 \<le> length (prefix_hextets cfg) + length (subnet_hextets cfg)"
  then show "randomIPv6 cfg entropy = Inr None"
    unfolding randomIPv6_def prefix_hextets_def subnet_hextets_def Let_def by simp
next
  from randomIPv6_v0_split [of cfg entropy] obtain s rand
    where r: "randomIPv6_v0 cfg entropy = Inr s"
      "split_on (CHR '':'') s =
        split_on (CHR '':'') (IPV6_PREFIX cfg) @ split_on (CHR '':'') (IPV6_SUBNET cfg) @ rand"
      "length rand = 4" by blast
  have "length (prefix_hextets cfg) \<le> length (split_on (CHR '':'') (IPV6_PREFIX cfg))"
    "length (subnet_hextets cfg) \<le> length (split_on (CHR '':'') (IPV6_SUBNET cfg))"
    unfolding prefix_hextets_def subnet_hextets_def by (rule filter_Boolean_length)+
  with r(2,3) have "length (prefix_hextets cfg) + length (subnet_hextets cfg) + 4
      \<le> length (split_on (CHR '':'') s)" by simp
  with r(1) show "\<exists>s. randomIPv6_v0 cfg entropy = Inr s \<and>
      length (prefix_hextets cfg) + length (subnet_hextets cfg) + 4 \<le> length (split_on (CHR '':'') s)"
    by blast
qed

theorem randomIPv6_no_room_witness:
  "8 \<le> length (prefix_hextets (load_config [''I6_IPV6_PREFIX'' \<mapsto> ''2001:db8:1:2:3:4:5''])) +
        length (subnet_hextets (load_config [''I6_IPV6_PREFIX'' \<mapsto> ''2001:db8:1:2:3:4:5''])) \<and>
   randomIPv6 (load_config [''I6_IPV6_PREFIX'' \<mapsto> ''2001:db8:1:2:3:4:5'']) (\<lambda>n. 0) = Inr None"
proof -
  let ?cfg = "load_config [''I6_IPV6_PREFIX'' \<mapsto> ''2001:db8:1:2:3:4:5'']"
  have h: "8 \<le> length (prefix_hextets ?cfg) + length (subnet_hextets ?cfg)"
    by (simp add: prefix_hextets_def subnet_hextets_def load_config_def env_or_def filter_Boolean_def)
  from randomIPv6_no_room [of ?cfg "\<lambda>n. 0", THEN conjunct1, rule_format, OF h] h
  show ?thesis by (intro conjI)
qed

text \<open>The claim as written fails for \<open>part_001\<close>: eight configured hextets give a string of
  twelve parts, not \<open>null\<close>.\<close>

theorem randomIPv6_no_room_counterexample:
  "randomIPv6_v0 (load_config_v0 [''I6_IPV6_PREFIX'' \<mapsto> ''2001:db8:1:2:3:4:5'']) (\<lambda>n. 0)
     = Inr ''2001:db8:1:2:3:4:5:1000:0000:0000:0000:0000''"
  by code_simp

section \<open>Properties of the header transforms\<close>

subsection \<open>Property lists\<close>

lemma define_own_keys: "fst ` set (define_own k v props) = insert k (fst ` set props)"
proof (induction props)
  case Nil
  then show ?case by simp
next
  case (Cons e props)
  obtain k' v' where e: "e = (k', v')" by (cases e)
  show ?case
  proof (cases "k' = k")
    case True
    then show ?thesis unfolding e by simp
  next
    case False
    then show ?thesis unfolding e using Cons.IH by (simp add: insert_commute)
  qed
qed

lemma map_of_define_own: "map_of (define_own k v props) = (map_of props)(k \<mapsto> v)"
  by (induction props) auto

lemma distinct_define_own:
  "distinct (map fst props) \<Longrightarrow> distinct (map fst (define_own k v props))"
proof (induction props)
  case Nil
  then show ?case by simp
next
  case (Cons e props)
  obtain k' v' where e: "e = (k', v')" by (cases e)
  show ?case
  proof (cases "k' = k")
    case True
    with Cons.prems e show ?thesis by simp
  next
    case False
    from Cons.prems e have "k' \<notin> set (map fst props)" "distinct (map fst props)" by simp_all
    with Cons.IH False e show ?thesis by (simp add: define_own_keys)
  qed
qed

subsection \<open>Lowercasing\<close>

lemma letters_disjoint: "list_all (\<lambda>c. c \<notin> set upper_letters) lower_letters"
  by code_simp

lemma letters_length: "length upper_letters = length lower_letters"
  by (simp add: upper_letters_def lower_letters_def)

lemma lower_char_not_upper: "lower_char c \<notin> set upper_letters"
proof (cases "map_of (zip upper_letters lower_letters) c")
  case None
  then have "c \<notin> set upper_letters"
    using letters_length by (simp add: map_of_zip_is_None)
  with None show ?thesis by (simp add: lower_char_def)
next
  case (Some l)
  then have "(c, l) \<in> set (zip upper_letters lower_letters)" by (rule map_of_SomeD)
  then have "l \<in> set lower_letters" by (rule set_zip_rightD)
  with letters_disjoint have "l \<notin> set upper_letters" unfolding list_all_iff by blast
  with Some show ?thesis by (simp add: lower_char_def)
qed

lemma lower_char_idem: "lower_char (lower_char c) = lower_char c"
proof -
  have "map_of (zip upper_letters lower_letters) (lower_char c) = None"
    using lower_char_not_upper [of c] letters_length by (simp add: map_of_zip_is_None)
  then show ?thesis by (simp add: lower_char_def [of "lower_char c"])
qed

lemma toLowerCase_idem: "toLowerCase (toLowerCase s) = toLowerCase s"
  by (simp add: toLowerCase_def lower_char_idem)

subsection \<open>The outbound transform\<close>

lemma out_set_distinct: "distinct (map fst out) \<Longrightarrow> distinct (map fst (out_set k v out))"
  by (simp add: out_set_def distinct_define_own)

lemma filter_entries_distinct:
  "distinct (map fst acc) \<Longrightarrow> distinct (map fst (filter_entries es acc))"
proof (induction es arbitrary: acc)
  case Nil
  then show ?case by simp
next
  case (Cons e es)
  obtain k v where e: "e = (k, v)" by (cases e)
  show ?case unfolding e using Cons.prems by (simp add: Cons.IH out_set_distinct)
qed

text \<open>What the loop leaves under a name: for a name met once among the entries, its value
  unless the name is skipped or is \<open>__proto__\<close>.\<close>

lemma filter_entries_lookup:
  "distinct (map fst es) \<Longrightarrow>
   map_of (filter_entries es acc) k =
     (if k \<in> fst ` set es \<and> toLowerCase k \<notin> set skip_headers \<and> k \<noteq> ''__proto__''
      then map_of es k else map_of acc k)"
proof (induction es arbitrary: acc)
  case Nil
  then show ?case by simp
next
  case (Cons e es)
  obtain k' v' where e: "e = (k', v')" by (cases e)
  from Cons.prems e have d: "distinct (map fst es)" and n: "k' \<notin> fst ` set es" by simp_all
  note ih = Cons.IH [OF d]
  let ?keep = "toLowerCase k' \<notin> set skip_headers \<and> k' \<noteq> ''__proto__''"
  have step: "filter_entries (e # es) acc =
      filter_entries es (if ?keep then define_own k' v' acc else acc)"
    unfolding e by (simp add: out_set_def)
  show ?case
  proof (cases "k = k'")
    case True
    with n have nk: "k \<notin> fst ` set es" by simp
    have "map_of (filter_entries (e # es) acc) k =
        map_of (if ?keep then define_own k' v' acc else acc) k"
      unfolding step using nk by (simp only: ih if_False simp_thms)
    also have "\<dots> = (if ?keep then Some v' else map_of acc k)"
      using True by (simp add: map_of_define_own)
    finally show ?thesis unfolding e using True by simp
  next
    case False
    have "map_of (filter_entries (e # es) acc) k =
        (if k \<in> fst ` set es \<and> toLowerCase k \<notin> set skip_headers \<and> k \<noteq> ''__proto__''
         then map_of es k else map_of (if ?keep then define_own k' v' acc else acc) k)"
      unfolding step by (rule ih)
    also have "map_of (if ?keep then define_own k' v' acc else acc) k = map_of acc k"
      using False by (simp add: map_of_define_own)
    finally show ?thesis unfolding e using False by simp
  qed
qed

lemma map_of_optional_entries:
  "map_of (concat (map (\<lambda>n. case g n of None \<Rightarrow> [] | Some v \<Rightarrow> [(n, v)]) ns)) k =
     (if k \<in> set ns then g k else None)"
proof (induction ns)
  case Nil
  then show ?case by simp
next
  case (Cons n ns)
  then show ?case by (cases "g n") auto
qed

lemma keys_optional_entries:
  "map fst (concat (map (\<lambda>n. case g n of None \<Rightarrow> [] | Some v \<Rightarrow> [(n, v)]) ns)) =
     filter (\<lambda>n. g n \<noteq> None) ns"
proof (induction ns)
  case Nil
  then show ?case by simp
next
  case (Cons n ns)
  then show ?case by (cases "g n") auto
qed

lemma Headers_entries_distinct: "distinct (map fst (Headers_entries hs))"
  unfolding Headers_entries_def keys_optional_entries
  by (simp add: Headers_names_def)

lemma Headers_entries_lookup:
  "map_of (Headers_entries hs) k = (if k \<in> set (Headers_names hs) then Headers_get hs k else None)"
  unfolding Headers_entries_def by (rule map_of_optional_entries)

lemma Headers_entries_keys:
  "k \<in> fst ` set (Headers_entries hs) \<longleftrightarrow> k \<in> set (Headers_names hs) \<and> Headers_get hs k \<noteq> None"
proof -
  have "fst ` set (Headers_entries hs) = set (map fst (Headers_entries hs))" by simp
  also have "\<dots> = set (filter (\<lambda>n. Headers_get hs n \<noteq> None) (Headers_names hs))"
    unfolding Headers_entries_def keys_optional_entries ..
  finally show ?thesis by simp
qed

lemma Headers_get_lower: "Headers_get hs (toLowerCase k) = Headers_get hs k"
  by (simp add: Headers_get_def Headers_getAll_def toLowerCase_idem)

lemma Headers_get_None: "toLowerCase k \<notin> set (Headers_names hs) \<Longrightarrow> Headers_get hs k = None"
proof -
  assume "toLowerCase k \<notin> set (Headers_names hs)"
  then have "\<forall>l \<in> set hs. toLowerCase (fst l) \<noteq> toLowerCase k"
    unfolding Headers_names_def by (metis (no_types, lifting) image_eqI set_map set_remdups)
  then have "filter (\<lambda>l. toLowerCase (fst l) = toLowerCase k) hs = []"
    by (simp add: filter_empty_conv)
  then show ?thesis by (simp add: Headers_get_def Headers_getAll_def)
qed

lemma Headers_names_lower: "k \<in> set (Headers_names hs) \<Longrightarrow> toLowerCase k = k"
  by (auto simp: Headers_names_def toLowerCase_idem)

text \<open>
  Claim C8, as amended. The outbound transform returns one entry per header name, under
  the lowercased name: none for \<open>transfer-encoding\<close>, \<open>content-length\<close>, \<open>connection\<close>,
  \<open>keep-alive\<close> and \<open>server\<close> in any letter case, and for every other name what the
  response's \<open>Headers\<close> object gives for it, that is the values of the upstream header
  lines of that name joined with a comma and a space, so that a name that comes once
  keeps its value unchanged (\<open>content-encoding\<close>, which node-fetch lowercases, aside).
  Header lines that repeat a name are merged into one entry, not kept apart. Nothing is
  said here about a header named \<open>__proto__\<close>.
\<close>

theorem filterResponseHeaders_spec:
  "distinct (map fst (filterResponseHeaders hs)) \<and>
   (\<forall>k. toLowerCase k \<noteq> ''__proto__'' \<longrightarrow>
      obj_get (filterResponseHeaders hs) (toLowerCase k) =
        (if toLowerCase k \<in> set skip_headers then None else Headers_get hs k)) \<and>
   (\<forall>k. toLowerCase k \<noteq> k \<longrightarrow> obj_get (filterResponseHeaders hs) k = None) \<and>
   (\<forall>k v. Headers_getAll hs k = [v] \<and> toLowerCase k \<noteq> ''content-encoding'' \<longrightarrow>
      Headers_get hs k = Some v)"
proof (intro conjI allI impI)
  show "distinct (map fst (filterResponseHeaders hs))"
    unfolding filterResponseHeaders_def by (rule filter_entries_distinct) simp
next
  fix k
  assume np: "toLowerCase k \<noteq> ''__proto__''"
  let ?l = "toLowerCase k"
  have look: "map_of (filterResponseHeaders hs) ?l =
      (if ?l \<in> fst ` set (Headers_entries hs) \<and> toLowerCase ?l \<notin> set skip_headers \<and> ?l \<noteq> ''__proto__''
       then map_of (Headers_entries hs) ?l else map_of [] ?l)"
    unfolding filterResponseHeaders_def
    by (rule filter_entries_lookup) (rule Headers_entries_distinct)
  show "obj_get (filterResponseHeaders hs) ?l =
        (if ?l \<in> set skip_headers then None else Headers_get hs k)"
  proof (cases "?l \<in> set (Headers_names hs)")
    case True
    then show ?thesis
      using np look
      by (simp add: obj_get_def Headers_entries_keys Headers_entries_lookup toLowerCase_idem
          Headers_get_lower)
  next
    case False
    from Headers_get_None [OF False] have "Headers_get hs k = None" .
    with False show ?thesis
      using look by (simp add: obj_get_def Headers_entries_keys)
  qed
next
  fix k
  assume nl: "toLowerCase k \<noteq> k"
  with Headers_names_lower [of k hs] have "k \<notin> set (Headers_names hs)" by blast
  then have "k \<notin> fst ` set (Headers_entries hs)" by (simp add: Headers_entries_keys)
  moreover have "map_of (filterResponseHeaders hs) k =
      (if k \<in> fst ` set (Headers_entries hs) \<and> toLowerCase k \<notin> set skip_headers \<and> k \<noteq> ''__proto__''
       then map_of (Headers_entries hs) k else map_of [] k)"
    unfolding filterResponseHeaders_def
    by (rule filter_entries_lookup) (rule Headers_entries_distinct)
  ultimately show "obj_get (filterResponseHeaders hs) k = None"
    by (simp add: obj_get_def)
next
  fix k v
  assume "Headers_getAll hs k = [v] \<and> toLowerCase k \<noteq> ''content-encoding''"
  then show "Headers_get hs k = Some v"
    by (simp add: Headers_get_def Let_def)
qed

theorem filterResponseHeaders_spec_witness:
  "toLowerCase ''X-Custom'' = ''x-custom'' \<and>
   Headers_getAll [(''Content-Length'', ''10''), (''X-Custom'', ''ok''), (''Server'', ''nginx'')] ''X-Custom''
     = [''ok''] \<and>
   obj_get (filterResponseHeaders [(''Content-Length'', ''10''), (''X-Custom'', ''ok''), (''Server'', ''nginx'')])
     ''x-custom'' = Some ''ok'' \<and>
   obj_get (filterResponseHeaders [(''Content-Length'', ''10''), (''X-Custom'', ''ok''), (''Server'', ''nginx'')])
     ''X-Custom'' = None"
proof -
  let ?hs = "[(''Content-Length'', ''10''), (''X-Custom'', ''ok''), (''Server'', ''nginx'')]"
  have l: "toLowerCase ''X-Custom'' = ''x-custom''" by code_simp
  have np: "toLowerCase ''X-Custom'' \<noteq> ''__proto__''" by code_simp
  have ns: "toLowerCase ''X-Custom'' \<notin> set skip_headers" by code_simp
  have nl: "toLowerCase ''X-Custom'' \<noteq> ''X-Custom''" by code_simp
  have nc: "toLowerCase ''X-Custom'' \<noteq> ''content-encoding''" by code_simp
  have ga: "Headers_getAll ?hs ''X-Custom'' = [''ok'']" by code_simp
  note t = filterResponseHeaders_spec [of ?hs]
  from t have "Headers_get ?hs ''X-Custom'' = Some ''ok''" using ga nc by blast
  moreover from t np have "obj_get (filterResponseHeaders ?hs) (toLowerCase ''X-Custom'') =
        (if toLowerCase ''X-Custom'' \<in> set skip_headers then None else Headers_get ?hs ''X-Custom'')"
    by blast
  ultimately have a: "obj_get (filterResponseHeaders ?hs) ''x-custom'' = Some ''ok''"
    using ns by (simp add: l)
  from t nl have b: "obj_get (filterResponseHeaders ?hs) ''X-Custom'' = None" by blast
  from l ga a b show ?thesis by (intro conjI)
qed

text \<open>The claim as written keeps repeated names apart and every value unchanged; two
  \<open>Set-Cookie\<close> lines leave one entry, with a value that neither line had.\<close>

theorem filterResponseHeaders_multiplicity_counterexample:
  "filterResponseHeaders [(''Set-Cookie'', ''a=1''), (''Set-Cookie'', ''b=2'')]
     = [(''set-cookie'', ''a=1, b=2'')]"
  by code_simp

text \<open>A header named \<open>__proto__\<close> never becomes a property of the plain object.\<close>

lemma filterResponseHeaders_proto:
  "filterResponseHeaders [(''__proto__'', ''x''), (''x-test'', ''1'')] = [(''x-test'', ''1'')]"
  by code_simp

subsection \<open>The inbound transform\<close>

lemma obj_set_keys: "fst ` set (own (obj_set k v obj)) \<subseteq> insert k (fst ` set (own obj))"
proof (cases "k = ''__proto__'' \<and> reaches_proto_setter obj")
  case True
  then show ?thesis by (cases v) (auto simp: obj_set_def)
next
  case False
  then have "obj_set k v obj = obj\<lparr>own := define_own k v (own obj)\<rparr>"
    unfolding obj_set_def by (rule if_not_P)
  then show ?thesis by (simp add: define_own_keys)
qed

lemma obj_set_keys_sub:
  "k \<in> A \<Longrightarrow> fst ` set (own (obj_set k v h)) \<subseteq> fst ` set (own h) \<union> A"
  using obj_set_keys [of k v h] by blast

lemma copy_request_headers_keys:
  "fst ` set (own (copy_request_headers hs fwd)) \<subseteq>
     fst ` set (own fwd) \<union> {k. toLowerCase k \<noteq> ''host'' \<and> toLowerCase k \<notin> set STRIP_REQ_HEADERS}"
proof (induction hs arbitrary: fwd)
  case Nil
  then show ?case by simp
next
  case (Cons e hs)
  obtain k v where e: "e = (k, v)" by (cases e)
  show ?case
  proof (cases "toLowerCase k = ''host'' \<or> toLowerCase k \<in> set STRIP_REQ_HEADERS")
    case True
    then have "copy_request_headers (e # hs) fwd = copy_request_headers hs fwd"
      unfolding e by (auto simp: Let_def)
    then show ?thesis using Cons.IH [of fwd] by simp
  next
    case False
    then have "copy_request_headers (e # hs) fwd = copy_request_headers hs (obj_set k (JStr v) fwd)"
      unfolding e by (simp add: Let_def)
    moreover have "fst ` set (own (copy_request_headers hs (obj_set k (JStr v) fwd))) \<subseteq>
        fst ` set (own (obj_set k (JStr v) fwd)) \<union>
        {k. toLowerCase k \<noteq> ''host'' \<and> toLowerCase k \<notin> set STRIP_REQ_HEADERS}"
      by (rule Cons.IH)
    moreover have "fst ` set (own (obj_set k (JStr v) fwd)) \<subseteq> insert k (fst ` set (own fwd))"
      by (rule obj_set_keys)
    ultimately show ?thesis using False by auto
  qed
qed

lemma foldl_obj_set_keys:
  "fst ` set (own (foldl (\<lambda>t (k, v). obj_set k v t) target es)) \<subseteq>
     fst ` set (own target) \<union> fst ` set es"
proof (induction es arbitrary: target)
  case Nil
  then show ?case by simp
next
  case (Cons e es)
  obtain k v where e: "e = (k, v)" by (cases e)
  define R where "R = fst ` set (own (foldl (\<lambda>t (k, v). obj_set k v t) (obj_set k v target) es))"
  define S where "S = fst ` set (own (obj_set k v target))"
  define T where "T = fst ` set (own target)"
  define U where "U = fst ` set es"
  have "R \<subseteq> S \<union> U" unfolding R_def S_def U_def by (rule Cons.IH)
  moreover have "S \<subseteq> insert k T" unfolding S_def T_def by (rule obj_set_keys)
  ultimately have "R \<subseteq> T \<union> insert k U" by blast
  moreover have "foldl (\<lambda>t (k, v). obj_set k v t) target (e # es) =
      foldl (\<lambda>t (k, v). obj_set k v t) (obj_set k v target) es"
    unfolding e by simp
  moreover have "fst ` set (e # es) = insert k U" unfolding e U_def by simp
  ultimately show ?case unfolding R_def T_def by (simp only:)
qed

lemma Object_assign_keys:
  "fst ` set (own (Object_assign target source)) \<subseteq>
     fst ` set (own target) \<union> fst ` set (own_entries source)"
  unfolding Object_assign_def by (rule foldl_obj_set_keys)

lemma buildFwdObject_keys:
  "fst ` set (own (buildFwdObject rt req extraHeaders)) \<subseteq>
     fst ` set (own (Object_assign (copy_request_headers (req_headers req) empty_object) extraHeaders)) \<union>
     {''user-agent'', ''accept'', ''accept-language'', ''referer'', ''origin'', ''cookie''}"
proof -
  define A :: "string set"
    where "A = {''user-agent'', ''accept'', ''accept-language'', ''referer'', ''origin'', ''cookie''}"
  have A: "''user-agent'' \<in> A" "''accept'' \<in> A" "''accept-language'' \<in> A"
    "''referer'' \<in> A" "''origin'' \<in> A" "''cookie'' \<in> A"
    unfolding A_def by (simp_all only: insert_iff simp_thms)
  define h1 where "h1 = Object_assign (copy_request_headers (req_headers req) empty_object) extraHeaders"
  define h2 where "h2 = (if str_truthy (query_ua req) then obj_set ''user-agent'' (JStr (the (query_ua req))) h1
                else if js_not (obj_read h1 ''user-agent'')
                     then obj_set ''user-agent'' (JStr default_user_agent) h1
                else h1)"
  define h3 where "h3 = (if js_not (obj_read h2 ''accept'') then obj_set ''accept'' (JStr default_accept) h2
                else h2)"
  define h4 where "h4 = (if js_not (obj_read h3 ''accept-language'')
                then obj_set ''accept-language'' (JStr ''en-US,en;q=0.9'') h3
                else h3)"
  define hr where "hr = obj_set ''referer'' (JStr (the (query_referer req))) h4"
  define h5 where "h5 = (if str_truthy (query_referer req) \<and> js_not (obj_read h4 ''referer'')
                then (if js_not (obj_read hr ''origin'')
                         then (case URL_origin rt (the (query_referer req)) of
                                 None \<Rightarrow> hr
                               | Some origin \<Rightarrow> obj_set ''origin'' (JStr origin) hr)
                         else hr)
                else h4)"
  define h6 where "h6 = (if str_truthy (query_cookies req)
         then obj_set ''cookie'' (JStr (the (query_cookies req))) h5
         else h5)"
  have b: "buildFwdObject rt req extraHeaders = h6"
    unfolding buildFwdObject_def Let_def h6_def h5_def hr_def h4_def h3_def h2_def h1_def ..
  have s2: "fst ` set (own h2) \<subseteq> fst ` set (own h1) \<union> A"
    unfolding h2_def using obj_set_keys_sub [OF A(1), of _ h1]
    by (cases "str_truthy (query_ua req)"; cases "js_not (obj_read h1 ''user-agent'')") auto
  have s3: "fst ` set (own h3) \<subseteq> fst ` set (own h2) \<union> A"
    unfolding h3_def using obj_set_keys_sub [OF A(2), of _ h2]
    by (cases "js_not (obj_read h2 ''accept'')") auto
  have s4: "fst ` set (own h4) \<subseteq> fst ` set (own h3) \<union> A"
    unfolding h4_def using obj_set_keys_sub [OF A(3), of _ h3]
    by (cases "js_not (obj_read h3 ''accept-language'')") auto
  have sr: "fst ` set (own hr) \<subseteq> fst ` set (own h4) \<union> A"
    unfolding hr_def by (rule obj_set_keys_sub [OF A(4)])
  have so: "fst ` set (own (obj_set ''origin'' v hr)) \<subseteq> fst ` set (own h4) \<union> A" for v
    using obj_set_keys_sub [OF A(5), of v hr] sr by blast
  have s5: "fst ` set (own h5) \<subseteq> fst ` set (own h4) \<union> A"
  proof (cases "str_truthy (query_referer req) \<and> js_not (obj_read h4 ''referer'')")
    case False
    then have "h5 = h4" unfolding h5_def by (rule if_not_P)
    then show ?thesis by blast
  next
    case True
    then have h5: "h5 = (if js_not (obj_read hr ''origin'')
                         then (case URL_origin rt (the (query_referer req)) of
                                 None \<Rightarrow> hr
                               | Some origin \<Rightarrow> obj_set ''origin'' (JStr origin) hr)
                         else hr)" unfolding h5_def by (rule if_P)
    show ?thesis
    proof (cases "js_not (obj_read hr ''origin'')")
      case False
      with h5 have "h5 = hr" by (simp only: if_False)
      with sr show ?thesis by simp
    next
      case True
      show ?thesis
      proof (cases "URL_origin rt (the (query_referer req))")
        case None
        with h5 True have "h5 = hr" by (simp only: if_True option.case)
        with sr show ?thesis by simp
      next
        case (Some origin)
        with h5 True have "h5 = obj_set ''origin'' (JStr origin) hr" by (simp only: if_True option.case)
        with so show ?thesis by simp
      qed
    qed
  qed
  have s6: "fst ` set (own h6) \<subseteq> fst ` set (own h5) \<union> A"
    unfolding h6_def using obj_set_keys_sub [OF A(6), of _ h5]
    by (cases "str_truthy (query_cookies req)") auto
  have u: "X \<subseteq> Y \<union> A \<Longrightarrow> Y \<subseteq> Z \<union> A \<Longrightarrow> X \<subseteq> Z \<union> A" for X Y Z :: "string set"
    by blast
  have "fst ` set (own h6) \<subseteq> fst ` set (own h1) \<union> A"
    by (rule u [OF s6], rule u [OF s5], rule u [OF s4], rule u [OF s3], rule s2)
  then have "fst ` set (own (buildFwdObject rt req extraHeaders)) \<subseteq> fst ` set (own h1) \<union> A"
    by (simp only: b)
  then show ?thesis by (simp only: h1_def A_def)
qed

lemma default_keys_not_stripped:
  "k \<in> {''user-agent'', ''accept'', ''accept-language'', ''referer'', ''origin'', ''cookie''} \<Longrightarrow>
   toLowerCase k \<noteq> ''host'' \<and> toLowerCase k \<notin> set STRIP_REQ_HEADERS"
proof -
  have "list_all (\<lambda>k. toLowerCase k \<noteq> ''host'' \<and> toLowerCase k \<notin> set STRIP_REQ_HEADERS)
      [''user-agent'', ''accept'', ''accept-language'', ''referer'', ''origin'', ''cookie'']"
    by code_simp
  then show "k \<in> {''user-agent'', ''accept'', ''accept-language'', ''referer'', ''origin'', ''cookie''} \<Longrightarrow>
   toLowerCase k \<noteq> ''host'' \<and> toLowerCase k \<notin> set STRIP_REQ_HEADERS"
    unfolding list_all_iff by (simp only: set_simps) blast
qed

text \<open>
  Claim C1, as amended. In the header map the relay hands to the upstream fetch, a name
  that is \<open>host\<close> or in the strip set (in any letter case) is there only if the
  caller-supplied extra-header map has that very name: none is taken from the inbound
  client headers and none is added by the defaults and overrides. An extra-header map
  without such a name therefore gives a header map without one.
\<close>

theorem inbound_transform_strips:
  "\<forall>k \<in> fst ` set (buildFwdHeaders rt req extraHeaders).
     toLowerCase k = ''host'' \<or> toLowerCase k \<in> set STRIP_REQ_HEADERS
       \<longrightarrow> k \<in> fst ` set (own_entries extraHeaders)"
proof (intro ballI impI)
  fix k
  assume k: "k \<in> fst ` set (buildFwdHeaders rt req extraHeaders)"
    and bad: "toLowerCase k = ''host'' \<or> toLowerCase k \<in> set STRIP_REQ_HEADERS"
  define A where "A = {''user-agent'', ''accept'', ''accept-language'', ''referer'', ''origin'', ''cookie''}"
  define C where "C = fst ` set (own (copy_request_headers (req_headers req) empty_object))"
  define E where "E = fst ` set (own_entries extraHeaders)"
  have "fst ` set (own (buildFwdObject rt req extraHeaders)) \<subseteq>
      fst ` set (own (Object_assign (copy_request_headers (req_headers req) empty_object) extraHeaders)) \<union> A"
    unfolding A_def by (rule buildFwdObject_keys)
  moreover have "fst ` set (own (Object_assign (copy_request_headers (req_headers req) empty_object) extraHeaders))
      \<subseteq> C \<union> E"
    unfolding C_def E_def by (rule Object_assign_keys)
  ultimately have "fst ` set (buildFwdHeaders rt req extraHeaders) \<subseteq> (C \<union> E) \<union> A"
    unfolding buildFwdHeaders_def by (rule order_trans [OF _ Un_mono [OF _ subset_refl]])
  with k have cases: "k \<in> C \<or> k \<in> E \<or> k \<in> A" by blast
  have nA: "k \<notin> A"
    using default_keys_not_stripped [of k] bad unfolding A_def [symmetric] by blast
  have "C \<subseteq> {k. toLowerCase k \<noteq> ''host'' \<and> toLowerCase k \<notin> set STRIP_REQ_HEADERS}"
    using copy_request_headers_keys [of "req_headers req" empty_object]
    unfolding C_def by (simp add: empty_object_def)
  with bad have nC: "k \<notin> C" by blast
  from cases nA nC have "k \<in> E" by blast
  then show "k \<in> fst ` set (own_entries extraHeaders)" unfolding E_def .
qed

theorem inbound_transform_strips_witness:
  "''host'' \<in> fst ` set (buildFwdHeaders sample_runtime sample_request (JObj [(''host'', JStr ''internal'')])) \<and>
   toLowerCase ''host'' = ''host'' \<and>
   ''host'' \<in> fst ` set (own_entries (JObj [(''host'', JStr ''internal'')]))"
proof -
  let ?x = "JObj [(''host'', JStr ''internal'')]"
  have k: "''host'' \<in> fst ` set (buildFwdHeaders sample_runtime sample_request ?x)"
    by code_simp
  have l: "toLowerCase ''host'' = ''host''"
    by code_simp
  then have bad: "toLowerCase ''host'' = ''host'' \<or> toLowerCase ''host'' \<in> set STRIP_REQ_HEADERS"
    by (rule disjI1)
  from inbound_transform_strips [of sample_runtime sample_request ?x, rule_format, OF k bad] k l
  show ?thesis by (intro conjI)
qed

text \<open>The claim as written also covers an extra-header map that names \<open>host\<close>: the merge
  comes after the stripping and puts it back.\<close>

theorem inbound_transform_counterexample:
  "obj_get (buildFwdHeaders sample_runtime sample_request
              (JObj [(''host'', JStr ''internal''), (''x-real-ip'', JStr ''10.0.0.1'')])) ''host''
     = Some (JStr ''internal'') \<and>
   obj_get (buildFwdHeaders sample_runtime sample_request
              (JObj [(''host'', JStr ''internal''), (''x-real-ip'', JStr ''10.0.0.1'')])) ''x-real-ip''
     = Some (JStr ''10.0.0.1'')"
  by code_simp

section \<open>Properties of the token validator\<close>

subsection \<open>The encodings are injective\<close>

lemma digit_val_table: "list_all (\<lambda>i. digit_val (hex_digit i) = i) [0..<16]"
  by code_simp

lemma digit_val_hex_digit: "digit_val (hex_digit d) = d mod 16"
proof -
  have "d mod 16 \<in> set [0..<16]" by simp
  with digit_val_table have "digit_val (hex_digit (d mod 16)) = d mod 16"
    unfolding list_all_iff by blast
  moreover have "hex_digit (d mod 16) = hex_digit d" by (simp add: hex_digit_def)
  ultimately show ?thesis by simp
qed

lemma hex_digit_eq_mod: "hex_digit x = hex_digit y \<Longrightarrow> x mod 16 = y mod 16"
  by (metis digit_val_hex_digit)

lemma nat_digits_val: "digits_val 10 (nat_digits n) = n"
proof (induction n rule: nat_digits.induct)
  case (1 n)
  show ?case
  proof (cases "n < 10")
    case True
    then have "n mod 16 = n" by simp
    with True show ?thesis
      by (subst nat_digits.simps) (simp add: digits_val_def digit_val_hex_digit)
  next
    case False
    have m: "(n mod 10) mod 16 = n mod 10"
      by (rule mod_less) (rule less_trans [of _ 10], simp_all)
    from False 1 have "digits_val 10 (nat_digits (n div 10)) = n div 10" by simp
    then have "digits_val 10 (nat_digits (n div 10) @ [hex_digit (n mod 10)]) = n div 10 * 10 + n mod 10"
      by (simp add: digits_val_def digit_val_hex_digit m)
    with False show ?thesis by (subst nat_digits.simps) simp
  qed
qed

lemma nat_digits_inj: "nat_digits a = nat_digits b \<Longrightarrow> a = b"
  by (metis nat_digits_val)

lemma nat_digits_chars: "set (nat_digits n) \<subseteq> set hex_chars"
proof (induction n rule: nat_digits.induct)
  case (1 n)
  show ?case
  proof (cases "n < 10")
    case True
    then show ?thesis using hex_digit_in [of n] by (subst nat_digits.simps) simp
  next
    case False
    with 1 have "set (nat_digits (n div 10)) \<subseteq> set hex_chars" by simp
    with False show ?thesis
      using hex_digit_in [of "n mod 10"] by (subst nat_digits.simps) simp
  qed
qed

lemma minus_not_hex: "CHR ''-'' \<notin> set hex_chars"
  by (simp add: hex_chars_def)

lemma minus_not_digits: "CHR ''-'' # ds \<noteq> nat_digits n"
proof
  assume "CHR ''-'' # ds = nat_digits n"
  then have "CHR ''-'' \<in> set (nat_digits n)" by (metis list.set_intros(1))
  with nat_digits_chars [of n] minus_not_hex show False by blast
qed

lemma String_int_inj: "String_int a = String_int b \<Longrightarrow> a = b"
proof -
  assume eq: "String_int a = String_int b"
  consider "a < 0" "b < 0" | "a < 0" "\<not> b < 0" | "\<not> a < 0" "b < 0" | "\<not> a < 0" "\<not> b < 0"
    by blast
  then show ?thesis
  proof cases
    case 1
    with eq have "nat_digits (nat (- a)) = nat_digits (nat (- b))" by (simp add: String_int_def)
    then have "nat (- a) = nat (- b)" by (rule nat_digits_inj)
    with 1 show ?thesis by simp
  next
    case 2
    with eq have "CHR ''-'' # nat_digits (nat (- a)) = nat_digits (nat b)" by (simp add: String_int_def)
    with minus_not_digits show ?thesis by blast
  next
    case 3
    with eq have "CHR ''-'' # nat_digits (nat (- b)) = nat_digits (nat a)" by (simp add: String_int_def)
    with minus_not_digits show ?thesis by blast
  next
    case 4
    with eq have "nat_digits (nat a) = nat_digits (nat b)" by (simp add: String_int_def)
    then have "nat a = nat b" by (rule nat_digits_inj)
    with 4 show ?thesis by simp
  qed
qed

lemma unat_byte: "x < 256 \<Longrightarrow> unat (of_nat x :: byte) = x"
  by (simp add: unat_of_nat)

lemma byte_eq: "x < 256 \<Longrightarrow> y < 256 \<Longrightarrow> (of_nat x :: byte) = of_nat y \<Longrightarrow> x = y"
  by (metis unat_byte)

lemma utf8_Cons_low: "(of_char c :: nat) < 128 \<Longrightarrow> utf8 (c # cs) = of_nat (of_char c) # utf8 cs"
  by (simp add: Let_def)

lemma utf8_Cons_high:
  "\<not> (of_char c :: nat) < 128 \<Longrightarrow>
   utf8 (c # cs) = of_nat (192 + of_char c div 64) # of_nat (128 + of_char c mod 64) # utf8 cs"
  by (simp add: Let_def)

lemma utf8_Cons_eq:
  assumes "utf8 (c # cs) = utf8 (d # ds)"
  shows "c = d \<and> utf8 cs = utf8 ds"
proof -
  let ?n = "of_char c :: nat" and ?m = "of_char d :: nat"
  have n: "?n < 256" and m: "?m < 256" by simp_all
  have "?n div 64 < 4" and "?m div 64 < 4"
    using n m by (simp_all add: less_mult_imp_div_less)
  then have hn: "192 + ?n div 64 < 256" and hm: "192 + ?m div 64 < 256" by simp_all
  have ln: "128 + ?n mod 64 < 256" and lm: "128 + ?m mod 64 < 256"
    using mod_less_divisor [of 64 ?n] mod_less_divisor [of 64 ?m] by simp_all
  consider "?n < 128" "?m < 128" | "?n < 128" "\<not> ?m < 128" | "\<not> ?n < 128" "?m < 128"
    | "\<not> ?n < 128" "\<not> ?m < 128" by blast
  then show ?thesis
  proof cases
    case 1
    from assms [unfolded utf8_Cons_low [OF 1(1)] utf8_Cons_low [OF 1(2)]]
    have "(of_nat ?n :: byte) = of_nat ?m" and r: "utf8 cs = utf8 ds" by simp_all
    from byte_eq [OF n m this(1)] have "c = d" by simp
    with r show ?thesis by simp
  next
    case 2
    from assms [unfolded utf8_Cons_low [OF 2(1)] utf8_Cons_high [OF 2(2)]]
    have "(of_nat ?n :: byte) = of_nat (192 + ?m div 64)" by simp
    from byte_eq [OF n hm this] 2 show ?thesis by simp
  next
    case 3
    from assms [unfolded utf8_Cons_high [OF 3(1)] utf8_Cons_low [OF 3(2)]]
    have "(of_nat (192 + ?n div 64) :: byte) = of_nat ?m" by simp
    from byte_eq [OF hn m this] 3 show ?thesis by simp
  next
    case 4
    from assms [unfolded utf8_Cons_high [OF 4(1)] utf8_Cons_high [OF 4(2)]]
    have a: "(of_nat (192 + ?n div 64) :: byte) = of_nat (192 + ?m div 64)"
      and b: "(of_nat (128 + ?n mod 64) :: byte) = of_nat (128 + ?m mod 64)"
      and r: "utf8 cs = utf8 ds"
      by simp_all
    from byte_eq [OF hn hm a] have q: "?n div 64 = ?m div 64" by simp
    from byte_eq [OF ln lm b] have p: "?n mod 64 = ?m mod 64" by simp
    have "?n = ?n div 64 * 64 + ?n mod 64" by simp
    also have "\<dots> = ?m div 64 * 64 + ?m mod 64" using q p by simp
    also have "\<dots> = ?m" by simp
    finally have "c = d" by simp
    with r show ?thesis by simp
  qed
qed

lemma utf8_Cons_nonempty: "utf8 (c # cs) \<noteq> []"
  by (simp add: Let_def)

lemma utf8_inj: "utf8 a = utf8 b \<Longrightarrow> a = b"
proof (induction a arbitrary: b)
  case Nil
  show ?case
  proof (cases b)
    case Nil
    then show ?thesis by simp
  next
    case (Cons d ds)
    with Nil utf8_Cons_nonempty [of d ds] show ?thesis by simp
  qed
next
  case (Cons c cs)
  show ?case
  proof (cases b)
    case Nil
    with Cons.prems utf8_Cons_nonempty [of c cs] show ?thesis by simp
  next
    case (Cons d ds)
    with Cons.prems have "utf8 (c # cs) = utf8 (d # ds)" by simp
    from utf8_Cons_eq [OF this] have "c = d" "utf8 cs = utf8 ds" by simp_all
    with Cons.IH [of ds] Cons show ?thesis by simp
  qed
qed

lemma hex_chars_ascii: "c \<in> set hex_chars \<Longrightarrow> (of_char c :: nat) < 128"
  by (auto simp: hex_chars_def)

lemma utf8_ascii_length: "\<forall>c \<in> set s. (of_char c :: nat) < 128 \<Longrightarrow> length (utf8 s) = length s"
  by (induction s) (simp_all add: Let_def)

lemma digest_hex_chars: "set (digest_hex d) \<subseteq> set hex_chars"
  using hex_digit_in by (auto simp: digest_hex_def)

lemma digest_hex_length: "length (digest_hex d) = 64"
  by (simp add: digest_hex_def)

lemma expected_utf8_length: "length (utf8 (expected_token rt)) = 64"
proof -
  have "\<forall>c \<in> set (expected_token rt). (of_char c :: nat) < 128"
    using digest_hex_chars hex_chars_ascii unfolding expected_token_def by blast
  from utf8_ascii_length [OF this] show ?thesis
    by (simp add: expected_token_def digest_hex_length)
qed

lemma digits_determine:
  "(\<forall>j < k. (a div 16 ^ j) mod 16 = (b div 16 ^ j) mod 16) \<Longrightarrow> a mod 16 ^ k = b mod 16 ^ k"
  for a b :: nat
proof (induction k)
  case 0
  then show ?case by simp
next
  case (Suc k)
  then have ih: "a mod 16 ^ k = b mod 16 ^ k" and top: "(a div 16 ^ k) mod 16 = (b div 16 ^ k) mod 16"
    by simp_all
  have "x mod 16 ^ Suc k = 16 ^ k * (x div 16 ^ k mod 16) + x mod 16 ^ k" for x :: nat
    using mod_mult2_eq [of x "16 ^ k" 16] by (simp add: mult.commute)
  with ih top show ?case by simp
qed

lemma digest_hex_inj: "digest_hex d = digest_hex d' \<Longrightarrow> d = d'"
proof -
  assume eq: "digest_hex d = digest_hex d'"
  have dig: "(unat d div 16 ^ j) mod 16 = (unat d' div 16 ^ j) mod 16" if j: "j < 64" for j
  proof -
    from j have i: "63 - j \<in> set [0..<64]" by simp
    from eq have "\<forall>i \<in> set [0..<64].
        hex_digit (unat d div 16 ^ (63 - i)) = hex_digit (unat d' div 16 ^ (63 - i))"
      unfolding digest_hex_def by (simp only: map_eq_conv)
    from bspec [OF this i]
    have "hex_digit (unat d div 16 ^ (63 - (63 - j))) = hex_digit (unat d' div 16 ^ (63 - (63 - j)))" .
    moreover from j have "63 - (63 - j) = j" by simp
    ultimately have "hex_digit (unat d div 16 ^ j) = hex_digit (unat d' div 16 ^ j)"
      by (simp only:)
    then show ?thesis by (rule hex_digit_eq_mod)
  qed
  then have m: "unat d mod 16 ^ 64 = unat d' mod 16 ^ 64"
    by (intro digits_determine) blast
  have p: "(16 :: nat) ^ 64 = 2 ^ 256"
  proof -
    have "(16 :: nat) ^ 64 = (2 ^ 4) ^ 64" by simp
    also have "\<dots> = 2 ^ (4 * 64)" by (rule power_mult [symmetric])
    finally show ?thesis by simp
  qed
  have "unat d < 2 ^ 256" "unat d' < 2 ^ 256"
    using unsigned_less [of d, where ?'a = nat] unsigned_less [of d', where ?'a = nat] by simp_all
  with m p have "unat d = unat d'" by simp
  then show ?thesis by (simp add: word_unat_eq_iff)
qed

lemma nowBucket_alt: "nowBucket now = now div 180000 * 180"
proof -
  have "now div 1000 div 180 = now div (1000 * 180)"
    by (rule zdiv_zmult2_eq [symmetric]) simp
  then show ?thesis by (simp add: nowBucket_def)
qed

subsection \<open>Acceptance\<close>

lemma validateApiToken_try_cases:
  "validateApiToken_try rt token =
     (if length (utf8 (case token of None \<Rightarrow> [] | Some t \<Rightarrow> t)) \<noteq> 64
      then Inl (RangeError ''ERR_CRYPTO_TIMING_SAFE_EQUAL_LENGTH'')
      else Inr (utf8 (case token of None \<Rightarrow> [] | Some t \<Rightarrow> t) = utf8 (expected_token rt)))"
  by (simp add: validateApiToken_try_def timingSafeEqual_def expected_utf8_length Let_def)

lemma validateApiToken_iff:
  "validateApiToken rt token = Inr True \<longleftrightarrow> token = Some (expected_token rt)"
proof
  assume acc: "validateApiToken rt token = Inr True"
  then have eq: "utf8 (case token of None \<Rightarrow> [] | Some t \<Rightarrow> t) = utf8 (expected_token rt)"
    by (simp add: validateApiToken_def validateApiToken_try_cases split: if_splits)
  show "token = Some (expected_token rt)"
  proof (cases token)
    case None
    with eq have "length (utf8 (expected_token rt)) = 0" by simp
    with expected_utf8_length [of rt] show ?thesis by simp
  next
    case (Some t)
    with eq have "utf8 t = utf8 (expected_token rt)" by simp
    then have "t = expected_token rt" by (rule utf8_inj)
    with Some show ?thesis by simp
  qed
next
  assume "token = Some (expected_token rt)"
  then show "validateApiToken rt token = Inr True"
    by (simp add: validateApiToken_def validateApiToken_try_cases expected_utf8_length)
qed

lemma validateApiToken_total:
  "validateApiToken rt token = Inr True \<or> validateApiToken rt token = Inr False"
  by (simp add: validateApiToken_def validateApiToken_try_cases)

text \<open>
  Claim C5. At time \<open>t\<close> the validator accepts exactly one token: the lowercase hex digest
  of the HMAC-SHA256 of \<open>proxy-access\<close> under the key that is the decimal string of
  \<open>t\<close> (in milliseconds) rounded down to a 180-second boundary (in seconds). A time in
  any other bucket, one bucket away or more, has a different key, and the token made for
  it is rejected, provided the HMAC does not give the two keys the same digest.
\<close>

theorem validateApiToken_accepts_exactly:
  "(validateApiToken rt token = Inr True \<longleftrightarrow>
      token = Some (digest_hex (hmac_sha256 rt
                 (utf8 (String_int (Date_now rt div 180000 * 180))) (utf8 ''proxy-access'')))) \<and>
   (\<forall>t'. nowBucket t' \<noteq> nowBucket (Date_now rt) \<longrightarrow>
      deriveDynamicKey (rt\<lparr>Date_now := t'\<rparr>) \<noteq> deriveDynamicKey rt \<and>
      (hmac_sha256 rt (deriveDynamicKey (rt\<lparr>Date_now := t'\<rparr>)) (utf8 ''proxy-access'')
         \<noteq> hmac_sha256 rt (deriveDynamicKey rt) (utf8 ''proxy-access'') \<longrightarrow>
       validateApiToken rt (Some (expected_token (rt\<lparr>Date_now := t'\<rparr>))) = Inr False))"
proof (intro conjI allI impI)
  have "expected_token rt = digest_hex (hmac_sha256 rt
          (utf8 (String_int (Date_now rt div 180000 * 180))) (utf8 ''proxy-access''))"
    by (simp add: expected_token_def deriveDynamicKey_def nowBucket_alt)
  then show "validateApiToken rt token = Inr True \<longleftrightarrow>
      token = Some (digest_hex (hmac_sha256 rt
                 (utf8 (String_int (Date_now rt div 180000 * 180))) (utf8 ''proxy-access'')))"
    using validateApiToken_iff [of rt token] by (simp only:)
next
  fix t'
  assume b: "nowBucket t' \<noteq> nowBucket (Date_now rt)"
  show "deriveDynamicKey (rt\<lparr>Date_now := t'\<rparr>) \<noteq> deriveDynamicKey rt"
  proof
    assume "deriveDynamicKey (rt\<lparr>Date_now := t'\<rparr>) = deriveDynamicKey rt"
    then have "utf8 (String_int (nowBucket t')) = utf8 (String_int (nowBucket (Date_now rt)))"
      by (simp add: deriveDynamicKey_def)
    then have "String_int (nowBucket t') = String_int (nowBucket (Date_now rt))" by (rule utf8_inj)
    then have "nowBucket t' = nowBucket (Date_now rt)" by (rule String_int_inj)
    with b show False by (simp only:)
  qed
next
  fix t'
  assume h: "hmac_sha256 rt (deriveDynamicKey (rt\<lparr>Date_now := t'\<rparr>)) (utf8 ''proxy-access'')
         \<noteq> hmac_sha256 rt (deriveDynamicKey rt) (utf8 ''proxy-access'')"
  have "expected_token (rt\<lparr>Date_now := t'\<rparr>) \<noteq> expected_token rt"
  proof
    assume "expected_token (rt\<lparr>Date_now := t'\<rparr>) = expected_token rt"
    then have "digest_hex (hmac_sha256 rt (deriveDynamicKey (rt\<lparr>Date_now := t'\<rparr>)) (utf8 ''proxy-access''))
         = digest_hex (hmac_sha256 rt (deriveDynamicKey rt) (utf8 ''proxy-access''))"
      by (simp add: expected_token_def)
    then have "hmac_sha256 rt (deriveDynamicKey (rt\<lparr>Date_now := t'\<rparr>)) (utf8 ''proxy-access'')
         = hmac_sha256 rt (deriveDynamicKey rt) (utf8 ''proxy-access'')"
      by (rule digest_hex_inj)
    with h show False by (simp only:)
  qed
  then have "validateApiToken rt (Some (expected_token (rt\<lparr>Date_now := t'\<rparr>))) \<noteq> Inr True"
    by (simp add: validateApiToken_iff)
  with validateApiToken_total [of rt "Some (expected_token (rt\<lparr>Date_now := t'\<rparr>))"]
  show "validateApiToken rt (Some (expected_token (rt\<lparr>Date_now := t'\<rparr>))) = Inr False"
    by blast
qed

theorem validateApiToken_accepts_exactly_witness:
  "nowBucket (Date_now sample_runtime) = 1700000100 \<and>
   nowBucket 1700000523456 = 1700000460 \<and>
   hmac_sha256 sample_runtime (deriveDynamicKey (sample_runtime\<lparr>Date_now := 1700000523456\<rparr>))
       (utf8 ''proxy-access'')
     \<noteq> hmac_sha256 sample_runtime (deriveDynamicKey sample_runtime) (utf8 ''proxy-access'') \<and>
   validateApiToken sample_runtime
       (Some (expected_token (sample_runtime\<lparr>Date_now := 1700000523456\<rparr>))) = Inr False \<and>
   validateApiToken sample_runtime (Some (expected_token sample_runtime)) = Inr True"
proof -
  have b0: "nowBucket (Date_now sample_runtime) = 1700000100"
    by (simp add: nowBucket_def sample_runtime_def)
  have b1: "nowBucket 1700000523456 = 1700000460"
    by (simp add: nowBucket_def)
  have ne: "nowBucket 1700000523456 \<noteq> nowBucket (Date_now sample_runtime)"
    unfolding b0 b1 by simp
  have mac: "hmac_sha256 sample_runtime (deriveDynamicKey (sample_runtime\<lparr>Date_now := 1700000523456\<rparr>))
       (utf8 ''proxy-access'')
     \<noteq> hmac_sha256 sample_runtime (deriveDynamicKey sample_runtime) (utf8 ''proxy-access'')"
  proof -
    have k0: "deriveDynamicKey sample_runtime = utf8 ''1700000100''"
      by (simp add: deriveDynamicKey_def sample_runtime_def nowBucket_def String_int_def
          nat_digits.simps hex_digit_def hex_chars_def)
    have k1: "deriveDynamicKey (sample_runtime\<lparr>Date_now := 1700000523456\<rparr>) = utf8 ''1700000460''"
      by (simp add: deriveDynamicKey_def sample_runtime_def nowBucket_def String_int_def
          nat_digits.simps hex_digit_def hex_chars_def)
    have "sample_mac (utf8 ''1700000460'') (utf8 ''proxy-access'')
        \<noteq> sample_mac (utf8 ''1700000100'') (utf8 ''proxy-access'')"
      by (simp add: sample_mac_def Let_def)
    moreover have "hmac_sha256 sample_runtime = sample_mac" by (simp add: sample_runtime_def)
    ultimately show ?thesis unfolding k0 k1 by simp
  qed
  note t = validateApiToken_accepts_exactly [of sample_runtime "Some (expected_token sample_runtime)"]
  from t [THEN conjunct2, rule_format, OF ne, THEN conjunct2, rule_format, OF mac]
  have rej: "validateApiToken sample_runtime
       (Some (expected_token (sample_runtime\<lparr>Date_now := 1700000523456\<rparr>))) = Inr False" .
  have acc: "validateApiToken sample_runtime (Some (expected_token sample_runtime)) = Inr True"
    using t [THEN conjunct1]
    by (simp add: expected_token_def deriveDynamicKey_def nowBucket_alt)
  from b0 b1 mac rej acc show ?thesis by (intro conjI)
qed

text \<open>
  Claim C10. For every token, \<open>undefined\<close> and the empty string included, the validator
  returns a boolean and lets no exception out. When the UTF-8 encoding of the token is
  not 64 bytes long, the comparison throws the length-mismatch error inside the \<open>try\<close>
  and the result is \<open>false\<close>.
\<close>

theorem validateApiToken_never_throws:
  "(\<exists>b. validateApiToken rt token = Inr b) \<and>
   (length (utf8 (case token of None \<Rightarrow> [] | Some t \<Rightarrow> t)) \<noteq> 64 \<longrightarrow>
      validateApiToken_try rt token = Inl (RangeError ''ERR_CRYPTO_TIMING_SAFE_EQUAL_LENGTH'') \<and>
      validateApiToken rt token = Inr False)"
proof (intro conjI impI)
  show "\<exists>b. validateApiToken rt token = Inr b"
    using validateApiToken_total [of rt token] by blast
next
  assume "length (utf8 (case token of None \<Rightarrow> [] | Some t \<Rightarrow> t)) \<noteq> 64"
  then show "validateApiToken_try rt token = Inl (RangeError ''ERR_CRYPTO_TIMING_SAFE_EQUAL_LENGTH'')"
    by (simp add: validateApiToken_try_cases)
  then show "validateApiToken rt token = Inr False"
    by (simp add: validateApiToken_def)
qed

theorem validateApiToken_never_throws_witness:
  "length (utf8 (case (None :: string option) of None \<Rightarrow> [] | Some t \<Rightarrow> t)) \<noteq> 64 \<and>
   validateApiToken sample_runtime None = Inr False \<and>
   length (utf8 (case Some [CHR 0xE9, CHR ''x''] of None \<Rightarrow> [] | Some t \<Rightarrow> t)) = 3 \<and>
   validateApiToken_try sample_runtime (Some [CHR 0xE9, CHR ''x''])
     = Inl (RangeError ''ERR_CRYPTO_TIMING_SAFE_EQUAL_LENGTH'') \<and>
   validateApiToken sample_runtime (Some [CHR 0xE9, CHR ''x'']) = Inr False"
proof -
  have n: "length (utf8 (case (None :: string option) of None \<Rightarrow> [] | Some t \<Rightarrow> t)) \<noteq> 64"
    by simp
  have l: "length (utf8 (case Some [CHR 0xE9, CHR ''x''] of None \<Rightarrow> [] | Some t \<Rightarrow> t)) = 3"
    by (simp add: Let_def)
  have s: "length (utf8 (case Some [CHR 0xE9, CHR ''x''] of None \<Rightarrow> [] | Some t \<Rightarrow> t)) \<noteq> 64"
    unfolding l by simp
  from validateApiToken_never_throws [of sample_runtime None, THEN conjunct2, rule_format, OF n]
    validateApiToken_never_throws [of sample_runtime "Some [CHR 0xE9, CHR ''x'']", THEN conjunct2, rule_format, OF s]
    n l
  show ?thesis by (intro conjI) simp_all
qed

end
